theory Spec2Isabelle
  imports Main
begin

section \<open>Texts and numbers\<close>

text \<open>
  JavaScript strings are modelled by \<^typ>\<open>string\<close>: lists of 8-bit characters, that is the
  strings whose code units are all below 256. File sizes, HTTP statuses and delays are
  non-negative integers far below \<open>2 ^ 53\<close>, so the doubles of the source are exact on them
  and are modelled by \<^typ>\<open>nat\<close>.
\<close>

fun startsWith :: "string \<Rightarrow> string \<Rightarrow> bool" where
  "startsWith s [] = True"
| "startsWith [] (p # ps) = False"
| "startsWith (c # cs) (p # ps) = (c = p \<and> startsWith cs ps)"

text \<open>\<open>String.prototype.includes\<close>: the pattern occurs somewhere in the text.\<close>

fun includes_str :: "string \<Rightarrow> string \<Rightarrow> bool" where
  "includes_str [] p = (p = [])"
| "includes_str (c # cs) p = (startsWith (c # cs) p \<or> includes_str cs p)"

definition digit_char :: "nat \<Rightarrow> char" where
  "digit_char d = ''0123456789'' ! d"

text \<open>The decimal digits of a number, as a template literal or \<open>toString\<close> prints it.\<close>

function show_nat :: "nat \<Rightarrow> string" where
  "show_nat n = (if n < 10 then [digit_char n] else show_nat (n div 10) @ [digit_char (n mod 10)])"
  by pat_completeness auto
termination
  by (relation "measure id") auto

declare show_nat.simps [simp del]

section \<open>Thrown values\<close>

text \<open>
  A thrown value is an object of which the code reads \<open>status\<close>, \<open>code\<close> and \<open>message\<close>.
  \<open>status\<close> and \<open>code\<close> are \<open>Some n\<close> when the property is the number \<open>n\<close> and \<open>None\<close>
  otherwise (absent, or not a number, so that \<open>===\<close> with a number is false); \<open>message\<close> is
  \<open>None\<close> when the property is absent. \<open>stringified\<close> is what \<open>JSON.stringify\<close> gives
  for the object.
\<close>

record err =
  status :: "int option"
  code :: "int option"
  message :: "string option"
  stringified :: string

text \<open>\<open>new Error(msg)\<close>: no status, no code, and no enumerable property of its own.\<close>

definition new_Error :: "string \<Rightarrow> err" where
  "new_Error msg = \<lparr>status = None, code = None, message = Some msg, stringified = ''{}''\<rparr>"

section \<open>JSON.parse\<close>

text \<open>
  \<open>JSON.parse\<close> is a built-in of the host. It is modelled by a parser of the JSON grammar
  (ECMA-404, as ECMA-262 prescribes) that returns the syntax tree of the document: number
  and string literals are kept as they are written, and the members of an object in the
  order of the text. The JavaScript value is a function of this tree.
\<close>

datatype json =
    JNull
  | JBool bool
  | JNumber string
  | JString string
  | JArray "json list"
  | JObject "(string \<times> json) list"

definition is_json_ws :: "char \<Rightarrow> bool" where
  "is_json_ws c = (c = CHR 0x20 \<or> c = CHR 0x09 \<or> c = CHR 0x0A \<or> c = CHR 0x0D)"

definition skip_ws :: "string \<Rightarrow> string" where
  "skip_ws s = dropWhile is_json_ws s"

definition is_digit :: "char \<Rightarrow> bool" where
  "is_digit c = (c \<in> set ''0123456789'')"

definition is_hex :: "char \<Rightarrow> bool" where
  "is_hex c = (c \<in> set ''0123456789abcdefABCDEF'')"

definition is_escape :: "char \<Rightarrow> bool" where
  "is_escape c = (c = CHR 0x22 \<or> c = CHR 0x5C \<or> c \<in> set ''/bfnrt'')"

text \<open>
  The body of a string literal, after its opening quote: up to the closing quote, with no
  control character, and a backslash only in an escape sequence. Returns the body as
  written and the text after the closing quote.
\<close>

fun parse_string :: "string \<Rightarrow> (string \<times> string) option" where
  "parse_string [] = None"
| "parse_string (c # cs) =
     (if c = CHR 0x22 then Some ([], cs)
      else if c = CHR 0x5C then
        (case cs of
           [] \<Rightarrow> None
         | e # r \<Rightarrow>
             if e = CHR ''u'' then
               (if 4 \<le> length r \<and> list_all is_hex (take 4 r)
                then map_option (\<lambda>(b, t). (c # e # take 4 r @ b, t)) (parse_string (drop 4 r))
                else None)
             else if is_escape e
             then map_option (\<lambda>(b, t). (c # e # b, t)) (parse_string r)
             else None)
      else if of_char c < (0x20 :: nat) then None
      else map_option (\<lambda>(b, t). (c # b, t)) (parse_string cs))"

text \<open>
  A number literal: an optional minus, \<open>0\<close> or a digit sequence without leading zero, an
  optional fraction and an optional exponent. Returns the literal and the text after it.
\<close>

definition parse_digits :: "string \<Rightarrow> (string \<times> string) option" where
  "parse_digits s =
     (if takeWhile is_digit s = [] then None
      else Some (takeWhile is_digit s, dropWhile is_digit s))"

definition parse_int_part :: "string \<Rightarrow> (string \<times> string) option" where
  "parse_int_part s =
     (case s of
        [] \<Rightarrow> None
      | c # r \<Rightarrow> if c = CHR ''0'' then Some ([c], r) else parse_digits s)"

definition parse_frac :: "string \<Rightarrow> (string \<times> string) option" where
  "parse_frac s =
     (case s of
        [] \<Rightarrow> Some ([], s)
      | c # r \<Rightarrow>
          if c = CHR ''.'' then map_option (\<lambda>(ds, t). (c # ds, t)) (parse_digits r)
          else Some ([], s))"

definition parse_exp :: "string \<Rightarrow> (string \<times> string) option" where
  "parse_exp s =
     (case s of
        [] \<Rightarrow> Some ([], s)
      | c # r \<Rightarrow>
          if c = CHR ''e'' \<or> c = CHR ''E'' then
            (case r of
               [] \<Rightarrow> None
             | g # r' \<Rightarrow>
                 if g = CHR ''+'' \<or> g = CHR ''-''
                 then map_option (\<lambda>(ds, t). (c # g # ds, t)) (parse_digits r')
                 else map_option (\<lambda>(ds, t). (c # ds, t)) (parse_digits r))
          else Some ([], s))"

definition parse_number :: "string \<Rightarrow> (string \<times> string) option" where
  "parse_number s =
     (let sign = (if startsWith s ''-'' then ''-'' else '''');
          s0 = drop (length sign) s
      in case parse_int_part s0 of
           None \<Rightarrow> None
         | Some (ip, s1) \<Rightarrow>
             (case parse_frac s1 of
                None \<Rightarrow> None
              | Some (fp, s2) \<Rightarrow>
                  (case parse_exp s2 of
                     None \<Rightarrow> None
                   | Some (ep, s3) \<Rightarrow> Some (sign @ ip @ fp @ ep, s3))))"

text \<open>
  Values, the elements of an array after its opening bracket, and the members of an object
  after its opening brace. The first argument bounds the number of nested calls; each two
  nested calls consume at least one character, so \<open>2 * length text + 1\<close> is never reached
  on \<open>text\<close> (lemma \<open>fuel_enough\<close> below).
\<close>

fun parse_value :: "nat \<Rightarrow> string \<Rightarrow> (json \<times> string) option"
  and parse_elements :: "nat \<Rightarrow> string \<Rightarrow> (json list \<times> string) option"
  and parse_members :: "nat \<Rightarrow> string \<Rightarrow> ((string \<times> json) list \<times> string) option"
where
  "parse_value 0 s = None"
| "parse_value (Suc n) s =
     (case skip_ws s of
        [] \<Rightarrow> None
      | c # r \<Rightarrow>
          if c = CHR ''{'' then
            (if startsWith (skip_ws r) ''}'' then Some (JObject [], tl (skip_ws r))
             else map_option (\<lambda>(ms, t). (JObject ms, t)) (parse_members n r))
          else if c = CHR ''['' then
            (if startsWith (skip_ws r) '']'' then Some (JArray [], tl (skip_ws r))
             else map_option (\<lambda>(vs, t). (JArray vs, t)) (parse_elements n r))
          else if c = CHR 0x22 then map_option (\<lambda>(b, t). (JString b, t)) (parse_string r)
          else if startsWith (c # r) ''true'' then Some (JBool True, drop 4 (c # r))
          else if startsWith (c # r) ''false'' then Some (JBool False, drop 5 (c # r))
          else if startsWith (c # r) ''null'' then Some (JNull, drop 4 (c # r))
          else map_option (\<lambda>(l, t). (JNumber l, t)) (parse_number (c # r)))"
| "parse_elements 0 s = None"
| "parse_elements (Suc n) s =
     (case parse_value n s of
        None \<Rightarrow> None
      | Some (v, r) \<Rightarrow>
          (case skip_ws r of
             [] \<Rightarrow> None
           | c # r' \<Rightarrow>
               if c = CHR '','' then map_option (\<lambda>(vs, t). (v # vs, t)) (parse_elements n r')
               else if c = CHR '']'' then Some ([v], r')
               else None))"
| "parse_members 0 s = None"
| "parse_members (Suc n) s =
     (case skip_ws s of
        [] \<Rightarrow> None
      | q # r \<Rightarrow>
          if q = CHR 0x22 then
            (case parse_string r of
               None \<Rightarrow> None
             | Some (k, r1) \<Rightarrow>
                 (case skip_ws r1 of
                    [] \<Rightarrow> None
                  | c # r2 \<Rightarrow>
                      if c = CHR '':'' then
                        (case parse_value n r2 of
                           None \<Rightarrow> None
                         | Some (v, r3) \<Rightarrow>
                             (case skip_ws r3 of
                                [] \<Rightarrow> None
                              | d # r4 \<Rightarrow>
                                  if d = CHR '','' then
                                    map_option (\<lambda>(ms, t). ((k, v) # ms, t)) (parse_members n r4)
                                  else if d = CHR ''}'' then Some ([(k, v)], r4)
                                  else None))
                      else None))
          else None)"

text \<open>\<open>JSON.parse(text)\<close>: one value, with nothing but white space after it; \<open>None\<close> when
  the built-in throws a \<open>SyntaxError\<close>.\<close>

definition JSON_parse :: "string \<Rightarrow> json option" where
  "JSON_parse text =
     (case parse_value (2 * length text + 1) text of
        None \<Rightarrow> None
      | Some (v, r) \<Rightarrow> if skip_ws r = [] then Some v else None)"

section \<open>JSON.stringify\<close>

text \<open>
  The \<open>serialize\<close> of the specification is \<open>JSON.stringify\<close> without indentation, a
  built-in of the host as well: a document is printed with no white space, its literals
  as they are. A document is valid when its number literals and the bodies of its string
  literals and keys are well formed.
\<close>

fun join_comma :: "string list \<Rightarrow> string" where
  "join_comma [] = []"
| "join_comma [x] = x"
| "join_comma (x # y # zs) = x @ '','' @ join_comma (y # zs)"

fun serialize :: "json \<Rightarrow> string" where
  "serialize JNull = ''null''"
| "serialize (JBool b) = (if b then ''true'' else ''false'')"
| "serialize (JNumber l) = l"
| "serialize (JString b) = CHR 0x22 # b @ [CHR 0x22]"
| "serialize (JArray vs) = ''['' @ join_comma (map serialize vs) @ '']''"
| "serialize (JObject ms) =
     ''{'' @ join_comma (map (\<lambda>(k, v). CHR 0x22 # k @ CHR 0x22 # CHR '':'' # serialize v) ms) @ ''}''"

fun valid_json :: "json \<Rightarrow> bool" where
  "valid_json JNull = True"
| "valid_json (JBool b) = True"
| "valid_json (JNumber l) = (parse_number l = Some (l, []))"
| "valid_json (JString b) = (parse_string (b @ [CHR 0x22]) = Some (b, []))"
| "valid_json (JArray vs) = list_all valid_json vs"
| "valid_json (JObject ms) =
     list_all (\<lambda>(k, v). parse_string (k @ [CHR 0x22]) = Some (k, []) \<and> valid_json v) ms"

text \<open>The characters that may follow a value in a document, and those that may start one.\<close>

definition value_end :: "string \<Rightarrow> bool" where
  "value_end r = (case r of [] \<Rightarrow> True | c # _ \<Rightarrow> c = CHR '','' \<or> c = CHR '']'' \<or> c = CHR ''}'')"

definition value_start :: "char \<Rightarrow> bool" where
  "value_start c = (c = CHR 0x22 \<or> c \<in> set ''{[-0123456789tfn'')"

section \<open>The response extractor\<close>

text \<open>The characters that \<open>\s\<close> matches in a JavaScript regular expression, below 256.\<close>

definition is_js_space :: "char \<Rightarrow> bool" where
  "is_js_space c =
     (c = CHR 0x09 \<or> c = CHR 0x0A \<or> c = CHR 0x0B \<or> c = CHR 0x0C \<or> c = CHR 0x0D
      \<or> c = CHR 0x20 \<or> c = CHR 0xA0)"

definition fence :: string where
  "fence = [CHR 0x60, CHR 0x60, CHR 0x60]"

text \<open>
  The first capture group of \<open>text.match\<close> with the pattern of three backticks, an
  optional \<open>json\<close>, white space, a lazy group of any characters, white space and three
  backticks. The match starts at the leftmost three backticks (\<open>find_fence\<close> gives the text
  after them); \<open>json\<close> and white space are taken greedily, and the lazy group is the
  shortest text after which white space and three backticks follow (\<open>lazy_capture\<close>).
  When the leftmost three backticks have no closing ones, no later start has any, and
  there is no match.
\<close>

fun find_fence :: "string \<Rightarrow> string option" where
  "find_fence [] = None"
| "find_fence (c # cs) =
     (if startsWith (c # cs) fence then Some (drop 3 (c # cs)) else find_fence cs)"

definition closes_fence :: "string \<Rightarrow> bool" where
  "closes_fence r = startsWith (dropWhile is_js_space r) fence"

fun lazy_capture :: "string \<Rightarrow> string option" where
  "lazy_capture [] = None"
| "lazy_capture (c # cs) =
     (if closes_fence (c # cs) then Some [] else map_option ((#) c) (lazy_capture cs))"

definition markdownMatch :: "string \<Rightarrow> string option" where
  "markdownMatch text =
     (case find_fence text of
        None \<Rightarrow> None
      | Some r \<Rightarrow>
          lazy_capture (dropWhile is_js_space (if startsWith r ''json'' then drop 4 r else r)))"

text \<open>\<open>indexOf\<close> and \<open>lastIndexOf\<close> of one character; \<open>None\<close> is the source's \<open>-1\<close>.\<close>

fun indexOf :: "string \<Rightarrow> char \<Rightarrow> nat option" where
  "indexOf [] c = None"
| "indexOf (x # xs) c = (if x = c then Some 0 else map_option Suc (indexOf xs c))"

definition lastIndexOf :: "string \<Rightarrow> char \<Rightarrow> nat option" where
  "lastIndexOf text c = map_option (\<lambda>i. length text - 1 - i) (indexOf (rev text) c)"

text \<open>\<open>text.substring(a, b)\<close>: the two indices are swapped when the first is the larger.\<close>

definition substring :: "string \<Rightarrow> nat \<Rightarrow> nat \<Rightarrow> string" where
  "substring text a b = take (max a b - min a b) (drop (min a b) text)"

text \<open>
  \<open>tryParseJSON\<close>: the whole text, then the interior of a fenced block, then the text from
  the first opening brace to the last closing brace; the first that parses is returned.
\<close>

definition tryParseJSON :: "string \<Rightarrow> err + json" where
  "tryParseJSON text =
     (case JSON_parse text of
        Some v \<Rightarrow> Inr v
      | None \<Rightarrow>
          (case (case markdownMatch text of None \<Rightarrow> None | Some g \<Rightarrow> JSON_parse g) of
             Some v \<Rightarrow> Inr v
           | None \<Rightarrow>
               (case (case (indexOf text (CHR ''{''), lastIndexOf text (CHR ''}'')) of
                        (Some firstOpenBrace, Some lastCloseBrace) \<Rightarrow>
                          JSON_parse (substring text firstOpenBrace (lastCloseBrace + 1))
                      | _ \<Rightarrow> None) of
                  Some v \<Rightarrow> Inr v
                | None \<Rightarrow> Inl (new_Error ''Could not parse JSON from response.''))))"

section \<open>Files, component state and effects\<close>

record js_file =
  file_name :: string
  file_size :: nat
  file_type :: string

text \<open>
  The state of the component that \<open>handleFileChange\<close> and \<open>runAnalysis\<close> write. \<open>null\<close> is
  \<open>None\<close>, or \<open>JNull\<close> for the analysis data; \<open>selected_file\<close> is the source's \<open>file\<close>;
  the object URL is modelled by the file it points to.
\<close>

record state =
  selected_file :: "js_file option"
  videoUrl :: "js_file option"
  isAnalyzing :: bool
  analysisData :: json
  error :: "string option"
  errorDetails :: "string option"
  rawResponse :: string
  loadingStage :: string
  retryCount :: nat

datatype contentPart =
    FileData string string
  | InlineData string "string option"

text \<open>
  What a run does besides computing, in order: the two progress setters, the requests
  (method and URL), the sleeps (milliseconds), the file reader and the inference calls.
\<close>

datatype effect =
    SetLoadingStage string
  | SetRetryCount nat
  | Fetch string string
  | Sleep nat
  | ReadAsDataURL js_file
  | GenerateContent contentPart

definition MAX_FILE_SIZE_MB :: nat where
  "MAX_FILE_SIZE_MB = 2000"

text \<open>
  \<open>(size / 1024 / 1024).toFixed(1)\<close>. Dividing by 1024 is exact, and \<open>toFixed(1)\<close> takes
  the integer \<open>n\<close> with \<open>n / 10\<close> nearest to the exact quotient, the larger of two; it prints
  \<open>n\<close> with a point before its last digit.
\<close>

definition size_MB_toFixed1 :: "nat \<Rightarrow> string" where
  "size_MB_toFixed1 sz =
     (let n = (10 * sz + 524288) div 1048576
      in show_nat (n div 10) @ ''.'' @ show_nat (n mod 10))"

text \<open>\<open>handleFileChange\<close>, applied to \<open>event.target.files?.[0]\<close>.\<close>

definition handleFileChange :: "js_file option \<Rightarrow> state \<Rightarrow> state" where
  "handleFileChange selectedFile st =
     (case selectedFile of
        None \<Rightarrow> st
      | Some f \<Rightarrow>
          if file_size f > MAX_FILE_SIZE_MB * 1024 * 1024 then
            st\<lparr>error := Some (''File too large ('' @ size_MB_toFixed1 (file_size f) @ ''MB).''),
               errorDetails := Some (''The limit is '' @ show_nat MAX_FILE_SIZE_MB @ ''MB.'')\<rparr>
          else
            st\<lparr>selected_file := Some f, videoUrl := Some f, analysisData := JNull, rawResponse := '''',
               error := None, errorDetails := None\<rparr>)"

section \<open>The upload transport\<close>

text \<open>
  What \<open>fetch\<close> resolves to, as far as \<open>uploadFileToGemini\<close> reads it: \<open>ok\<close>, \<open>status\<close>,
  the body as \<open>text()\<close> gives it, the header \<open>x-goog-upload-url\<close>, and \<open>file.name\<close> and
  \<open>file.uri\<close> of the body as \<open>json()\<close> gives it (\<open>Inl\<close> when reading them throws). A
  \<open>fetch\<close> that rejects is \<open>Inl\<close> of the thrown value.
\<close>

record http_response =
  resp_ok :: bool
  resp_status :: nat
  resp_text :: string
  resp_upload_url :: "string option"
  resp_file :: "err + string \<times> string"

definition upload_endpoint :: "string \<Rightarrow> string" where
  "upload_endpoint apiKey =
     ''https://generativelanguage.googleapis.com/upload/v1beta/files?key='' @ apiKey"

definition uploadFileToGemini ::
  "js_file \<Rightarrow> string \<Rightarrow> err + http_response \<Rightarrow> err + http_response
     \<Rightarrow> effect list \<times> (err + string \<times> string)" where
  "uploadFileToGemini f apiKey startUpload uploadBytes =
     (let start = [Fetch ''POST'' (upload_endpoint apiKey)]
      in case startUpload of
           Inl e \<Rightarrow> (start, Inl e)
         | Inr r1 \<Rightarrow>
             if \<not> resp_ok r1 then
               (start, Inl (new_Error (''Upload init failed ('' @ show_nat (resp_status r1)
                                        @ ''): '' @ resp_text r1)))
             else
               (case resp_upload_url r1 of
                  None \<Rightarrow> (start, Inl (new_Error ''No upload URL returned from Google.''))
                | Some uploadUrl \<Rightarrow>
                    if uploadUrl = [] then
                      (start, Inl (new_Error ''No upload URL returned from Google.''))
                    else
                      (case uploadBytes of
                         Inl e \<Rightarrow> (start @ [Fetch ''PUT'' uploadUrl], Inl e)
                       | Inr r2 \<Rightarrow>
                           if \<not> resp_ok r2 then
                             (start @ [Fetch ''PUT'' uploadUrl],
                              Inl (new_Error (''Upload bytes failed ('' @ show_nat (resp_status r2)
                                              @ ''): '' @ resp_text r2)))
                           else (start @ [Fetch ''PUT'' uploadUrl], resp_file r2))))"

section \<open>The readiness poller\<close>

text \<open>
  The response to a status check: \<open>ok\<close>, and \<open>state\<close> of the body as \<open>json()\<close> gives it
  (\<open>None\<close> when the body has no such property, \<open>Inl\<close> when the body is not JSON and
  \<open>json()\<close> rejects).
\<close>

record state_response =
  st_ok :: bool
  st_state :: "err + string option"

definition state_endpoint :: "string \<Rightarrow> string \<Rightarrow> string" where
  "state_endpoint fileName apiKey =
     ''https://generativelanguage.googleapis.com/v1beta/'' @ fileName @ ''?key='' @ apiKey"

definition getFileState ::
  "string \<Rightarrow> string \<Rightarrow> err + state_response \<Rightarrow> effect list \<times> (err + string option)" where
  "getFileState fileName apiKey response =
     ([Fetch ''GET'' (state_endpoint fileName apiKey)],
      case response of
        Inl e \<Rightarrow> Inl e
      | Inr r \<Rightarrow> if \<not> st_ok r then Inr (Some ''UNKNOWN'') else st_state r)"

definition prepend_trace :: "effect list \<Rightarrow> (effect list \<times> 'a) option \<Rightarrow> (effect list \<times> 'a) option" where
  "prepend_trace pre r = map_option (\<lambda>(tr, x). (pre @ tr, x)) r"

text \<open>
  The loop \<open>while (fileState === "PROCESSING")\<close> of \<open>runAnalysis\<close>, run against the
  responses that the successive status checks receive. The source sets no bound on the
  loop: \<open>None\<close> is a loop still waiting when the responses given are used up.
\<close>

fun pollLoop ::
  "string \<Rightarrow> string \<Rightarrow> string option \<Rightarrow> (err + state_response) list
     \<Rightarrow> (effect list \<times> (err + string option)) option" where
  "pollLoop fileName apiKey fileState [] =
     (if fileState = Some ''PROCESSING'' then None else Some ([], Inr fileState))"
| "pollLoop fileName apiKey fileState (r # rs) =
     (if fileState = Some ''PROCESSING'' then
        (case getFileState fileName apiKey r of
           (tr, Inl e) \<Rightarrow> Some (Sleep 2000 # tr, Inl e)
         | (tr, Inr fileState') \<Rightarrow>
             if fileState' = Some ''FAILED''
             then Some (Sleep 2000 # tr, Inl (new_Error ''Video processing failed on server.''))
             else prepend_trace (Sleep 2000 # tr) (pollLoop fileName apiKey fileState' rs))
      else Some ([], Inr fileState))"

text \<open>
  The loop, started as the source starts it, and the check that follows it: the block of
  \<open>runAnalysis\<close> that the specification calls \<open>awaitReady\<close>.
\<close>

definition awaitReady ::
  "string \<Rightarrow> string \<Rightarrow> (err + state_response) list \<Rightarrow> (effect list \<times> (err + unit)) option" where
  "awaitReady fileName apiKey responses =
     (case pollLoop fileName apiKey (Some ''PROCESSING'') responses of
        None \<Rightarrow> None
      | Some (tr, Inl e) \<Rightarrow> Some (tr, Inl e)
      | Some (tr, Inr fileState) \<Rightarrow>
          if fileState \<noteq> Some ''ACTIVE''
          then Some (tr, Inl (new_Error (''File state is ''
                 @ (case fileState of None \<Rightarrow> ''undefined'' | Some s \<Rightarrow> s))))
          else Some (tr, Inr ()))"

section \<open>The ingestion strategy\<close>

definition isLargeFile :: "js_file \<Rightarrow> bool" where
  "isLargeFile f = (file_size f > 20 * 1024 * 1024)"

text \<open>
  \<open>fileToBase64\<close>: the reader's data URL, split at commas, second piece (\<open>None\<close> when the
  URL has no comma); \<open>Inl\<close> when the reader fails.
\<close>

definition fileToBase64 :: "js_file \<Rightarrow> err + string \<Rightarrow> effect list \<times> (err + string option)" where
  "fileToBase64 f readerResult =
     ([ReadAsDataURL f],
      case readerResult of
        Inl e \<Rightarrow> Inl e
      | Inr result \<Rightarrow>
          Inr (case dropWhile (\<lambda>c. c \<noteq> CHR '','') result of
                 [] \<Rightarrow> None
               | c # r \<Rightarrow> Some (takeWhile (\<lambda>c. c \<noteq> CHR '','') r)))"

text \<open>
  What the outside answers during one run: the key of the environment, the responses to
  the two upload requests and to the successive status checks, the result of the file
  reader, the outcomes of the successive inference calls (\<open>Inl\<close> a thrown value, \<open>Inr\<close>
  the \<open>text\<close> of the response, \<open>None\<close> when it has none), and the \<open>TypeError\<close> that the
  engine throws on reading a property of \<open>null\<close>.
\<close>

record env =
  apiKey :: string
  startUpload :: "err + http_response"
  uploadBytes :: "err + http_response"
  statusChecks :: "(err + state_response) list"
  readerResult :: "err + string"
  inferenceOutcomes :: "(err + string option) list"
  nullPropertyError :: err

text \<open>The branch on \<open>isLargeFile\<close> of \<open>runAnalysis\<close>, up to the content part.\<close>

definition prepareContent :: "env \<Rightarrow> js_file \<Rightarrow> (effect list \<times> (err + contentPart)) option" where
  "prepareContent env f =
     (if isLargeFile f then
        (case uploadFileToGemini f (apiKey env) (startUpload env) (uploadBytes env) of
           (tr1, Inl e) \<Rightarrow> Some (SetLoadingStage ''Uploading to Secure Storage...'' # tr1, Inl e)
         | (tr1, Inr (fileName, fileUri)) \<Rightarrow>
             prepend_trace
               (SetLoadingStage ''Uploading to Secure Storage...'' # tr1
                  @ [SetLoadingStage ''Processing video content...''])
               (case awaitReady fileName (apiKey env) (statusChecks env) of
                  None \<Rightarrow> None
                | Some (tr2, Inl e) \<Rightarrow> Some (tr2, Inl e)
                | Some (tr2, Inr u) \<Rightarrow> Some (tr2, Inr (FileData (file_type f) fileUri))))
      else
        (case fileToBase64 f (readerResult env) of
           (tr, Inl e) \<Rightarrow> Some (SetLoadingStage ''Encoding video (Inline)...'' # tr, Inl e)
         | (tr, Inr base64Data) \<Rightarrow>
             Some (SetLoadingStage ''Encoding video (Inline)...'' # tr,
                   Inr (InlineData (file_type f) base64Data))))"

section \<open>The inference retry executor\<close>

definition MAX_RETRIES :: nat where
  "MAX_RETRIES = 3"

definition isRetryable :: "err \<Rightarrow> bool" where
  "isRetryable e =
     (status e = Some 503 \<or> code e = Some 503 \<or> status e = Some 429 \<or> code e = Some 429
      \<or> (case message e of None \<Rightarrow> False | Some m \<Rightarrow> includes_str m ''overloaded'')
      \<or> (case message e of None \<Rightarrow> False | Some m \<Rightarrow> includes_str m ''fetch''))"

text \<open>
  The loop \<open>while (attempt < MAX_RETRIES && !success)\<close> of \<open>runAnalysis\<close>, run against the
  outcomes of the successive inference calls, with the loop's three variables as
  arguments. \<open>None\<close>: the loop needs an outcome that the list does not give.
\<close>

fun retryLoop ::
  "contentPart \<Rightarrow> (err + string option) list \<Rightarrow> nat \<Rightarrow> bool \<Rightarrow> string
     \<Rightarrow> (effect list \<times> (err + string)) option" where
  "retryLoop part [] attempt success responseText =
     (if attempt < MAX_RETRIES \<and> \<not> success then None else Some ([], Inr responseText))"
| "retryLoop part (outcome # outcomes) attempt success responseText =
     (if attempt < MAX_RETRIES \<and> \<not> success then
        (let call =
               (if attempt > 0
                then [SetLoadingStage (''Retrying analysis (Attempt '' @ show_nat (attempt + 1)
                                        @ ''/'' @ show_nat MAX_RETRIES @ '')...''),
                      SetRetryCount attempt]
                else [])
               @ [GenerateContent part]
         in case outcome of
              Inr text \<Rightarrow>
                prepend_trace call
                  (retryLoop part outcomes attempt True
                     (case text of None \<Rightarrow> '''' | Some t \<Rightarrow> t))
            | Inl e \<Rightarrow>
                if isRetryable e \<and> attempt < MAX_RETRIES - 1 then
                  prepend_trace (call @ [Sleep (2 ^ (attempt + 1) * 2000)])
                    (retryLoop part outcomes (attempt + 1) success responseText)
                else Some (call, Inl e))
      else Some ([], Inr responseText))"

section \<open>The run\<close>

text \<open>
  The \<open>try\<close> block of \<open>runAnalysis\<close>: the effects, the state with the raw response and the
  analysis data as the block left them, and the value thrown, if any.
\<close>

definition tryBlock :: "env \<Rightarrow> js_file \<Rightarrow> state \<Rightarrow> (effect list \<times> state \<times> err option) option" where
  "tryBlock env f st =
     (case prepareContent env f of
        None \<Rightarrow> None
      | Some (tr1, Inl e) \<Rightarrow> Some (tr1, st, Some e)
      | Some (tr1, Inr contentPart) \<Rightarrow>
          (case retryLoop contentPart (inferenceOutcomes env) 0 False '''' of
             None \<Rightarrow> None
           | Some (tr2, Inl e) \<Rightarrow>
               Some (tr1 @ SetLoadingStage ''Analyzing movements & structure...'' # tr2, st, Some e)
           | Some (tr2, Inr responseText) \<Rightarrow>
               (let tr = tr1 @ SetLoadingStage ''Analyzing movements & structure...'' # tr2;
                    st1 = st\<lparr>rawResponse := responseText\<rparr>
                in if responseText = [] then Some (tr, st1, Some (new_Error ''Empty response from AI.''))
                   else
                     (case tryParseJSON responseText of
                        Inl e \<Rightarrow> Some (tr, st1, Some e)
                      | Inr json \<Rightarrow>
                          if json = JNull
                          then Some (tr, st1\<lparr>analysisData := json\<rparr>, Some (nullPropertyError env))
                          else Some (tr, st1\<lparr>analysisData := json\<rparr>, None)))))"

text \<open>The two progress setters write the state; the other effects leave it.\<close>

fun apply_effect :: "effect \<Rightarrow> state \<Rightarrow> state" where
  "apply_effect (SetLoadingStage s) st = st\<lparr>loadingStage := s\<rparr>"
| "apply_effect (SetRetryCount n) st = st\<lparr>retryCount := n\<rparr>"
| "apply_effect _ st = st"

text \<open>\<open>err.message || JSON.stringify(err)\<close>.\<close>

definition error_details :: "err \<Rightarrow> string" where
  "error_details e =
     (case message e of
        None \<Rightarrow> stringified e
      | Some m \<Rightarrow> if m = [] then stringified e else m)"

text \<open>
  \<open>runAnalysis\<close>: the guards, the reset of the run's state, the \<open>try\<close> block, \<open>catch\<close> and
  \<open>finally\<close>. The choice of the active tab on success is presentation and is left out,
  but for the \<open>TypeError\<close> of reading a property of a \<open>null\<close> result.
\<close>

definition runAnalysis :: "env \<Rightarrow> state \<Rightarrow> (effect list \<times> state) option" where
  "runAnalysis env st =
     (case selected_file st of
        None \<Rightarrow> Some ([], st)
      | Some f \<Rightarrow>
          if apiKey env = [] then
            Some ([], st\<lparr>error := Some ''API Key Missing'',
                         errorDetails := Some ''process.env.API_KEY is not set.''\<rparr>)
          else
            (case tryBlock env f
                    (st\<lparr>isAnalyzing := True, error := None, errorDetails := None,
                        rawResponse := '''', analysisData := JNull\<rparr>) of
               None \<Rightarrow> None
             | Some (tr, st1, thrown) \<Rightarrow>
                 (let trace = SetRetryCount 0 # SetLoadingStage ''Preparing video...'' # tr;
                      st2 = fold apply_effect trace st1;
                      st3 = (case thrown of
                               None \<Rightarrow> st2
                             | Some e \<Rightarrow> st2\<lparr>error := Some ''Analysis Failed'',
                                               errorDetails := Some (error_details e)\<rparr>)
                  in Some (trace, st3\<lparr>isAnalyzing := False\<rparr>))))"

section \<open>Observations on a run\<close>

text \<open>The delays awaited in a trace, in order, and the number of inference calls issued.\<close>

fun delays :: "effect list \<Rightarrow> nat list" where
  "delays [] = []"
| "delays (Sleep ms # tr) = ms # delays tr"
| "delays (_ # tr) = delays tr"

fun inference_calls :: "effect list \<Rightarrow> nat" where
  "inference_calls [] = 0"
| "inference_calls (GenerateContent p # tr) = Suc (inference_calls tr)"
| "inference_calls (_ # tr) = inference_calls tr"

definition observe :: "(effect list \<times> 'a) option \<Rightarrow> (nat list \<times> nat \<times> 'a) option" where
  "observe r = map_option (\<lambda>(tr, x). (delays tr, inference_calls tr, x)) r"

text \<open>A status check answered with success and the given state.\<close>

definition status_ok :: "string \<Rightarrow> err + state_response" where
  "status_ok s = Inr \<lparr>st_ok = True, st_state = Inr (Some s)\<rparr>"

text \<open>A failure of an inference call with the given message and HTTP status.\<close>

definition api_error :: "string \<Rightarrow> int \<Rightarrow> err" where
  "api_error msg n = \<lparr>status = Some n, code = None, message = Some msg, stringified = ''{}''\<rparr>"

text \<open>The file reads of a trace.\<close>

fun file_reads :: "effect list \<Rightarrow> nat" where
  "file_reads [] = 0"
| "file_reads (ReadAsDataURL f # tr) = Suc (file_reads tr)"
| "file_reads (_ # tr) = file_reads tr"

text \<open>The state of the component when it is mounted (the initial values of \<open>useState\<close>).\<close>

definition initial_state :: state where
  "initial_state =
     \<lparr>selected_file = None, videoUrl = None, isAnalyzing = False, analysisData = JNull,
      error = None, errorDetails = None, rawResponse = '''',
      loadingStage = ''Initializing...'', retryCount = 0\<rparr>"

text \<open>
  A sample run, for the instances below: a video of the given size, and an outside where
  the upload succeeds, the asset is ready at the second status check, the reader gives a
  data URL, and the inference calls have the given outcomes.
\<close>

definition sample_file :: "nat \<Rightarrow> js_file" where
  "sample_file sz = \<lparr>file_name = ''match.mp4'', file_size = sz, file_type = ''video/mp4''\<rparr>"

definition sample_env :: "(err + string option) list \<Rightarrow> env" where
  "sample_env outcomes =
     \<lparr>apiKey = ''key'',
      startUpload = Inr \<lparr>resp_ok = True, resp_status = 200, resp_text = '''',
                         resp_upload_url = Some ''https://upload.test/session'',
                         resp_file = Inl (new_Error ''Unexpected end of JSON input'')\<rparr>,
      uploadBytes = Inr \<lparr>resp_ok = True, resp_status = 200, resp_text = '''',
                         resp_upload_url = None,
                         resp_file = Inr (''files/abc'', ''https://files.test/abc'')\<rparr>,
      statusChecks = [status_ok ''PROCESSING'', status_ok ''ACTIVE''],
      readerResult = Inr ''data:video/mp4;base64,AAAA'',
      inferenceOutcomes = outcomes,
      nullPropertyError = new_Error ''Cannot read properties of null''\<rparr>"

text \<open>The delays awaited by a run that ended.\<close>

definition delays_of :: "(effect list \<times> 'a) option \<Rightarrow> nat list option" where
  "delays_of r = map_option (delays \<circ> fst) r"

text \<open>The content parts given to the inference calls of a trace, and its requests.\<close>

fun content_parts :: "effect list \<Rightarrow> contentPart list" where
  "content_parts [] = []"
| "content_parts (GenerateContent p # tr) = p # content_parts tr"
| "content_parts (_ # tr) = content_parts tr"

fun requests :: "effect list \<Rightarrow> (string \<times> string) list" where
  "requests [] = []"
| "requests (Fetch m url # tr) = (m, url) # requests tr"
| "requests (_ # tr) = requests tr"

section \<open>Properties\<close>

lemma delays_append [simp]: "delays (a @ b) = delays a @ delays b"
  by (induction a rule: delays.induct) simp_all

lemma inference_calls_append [simp]:
  "inference_calls (a @ b) = inference_calls a + inference_calls b"
  by (induction a rule: inference_calls.induct) simp_all

lemma sample_small_run:
  "prepareContent (sample_env outcomes) (sample_file 5242880)
   = Some ([SetLoadingStage ''Encoding video (Inline)...'', ReadAsDataURL (sample_file 5242880)],
           Inr (InlineData ''video/mp4'' (Some ''AAAA'')))"
  by (simp add: prepareContent_def isLargeFile_def sample_env_def sample_file_def
      fileToBase64_def)

subsection \<open>The bound of the parser\<close>

text \<open>
  Every parser consumes input, so the bound on the nested calls that \<open>JSON_parse\<close> gives
  is never the reason of a failure: a larger bound gives the same result.
\<close>

lemma skip_ws_length: "length (skip_ws s) \<le> length s"
  by (simp add: skip_ws_def length_dropWhile_le)

lemma parse_string_shorter:
  "parse_string s = Some (b, t) \<Longrightarrow> length t < length s"
proof (induction s arbitrary: b t rule: parse_string.induct)
  case 1
  then show ?case by simp
next
  case (2 c cs)
  show ?case
  proof (cases cs)
    case Nil
    with "2.prems" show ?thesis
      by (auto split: if_splits)
  next
    case (Cons e r0)
    with 2 show ?thesis
      by (fastforce split: if_splits)
  qed
qed

lemma parse_digits_split:
  "parse_digits s = Some (ds, t) \<Longrightarrow> s = ds @ t \<and> ds \<noteq> []"
  by (auto simp: parse_digits_def split: if_splits)

lemma parse_int_part_split:
  "parse_int_part s = Some (ip, t) \<Longrightarrow> s = ip @ t \<and> ip \<noteq> []"
  using parse_digits_split [of s ip t]
  by (cases s) (auto simp: parse_int_part_def split: if_splits)

lemma parse_frac_split:
  "parse_frac s = Some (fp, t) \<Longrightarrow> s = fp @ t"
  by (cases s) (auto simp: parse_frac_def dest: parse_digits_split split: if_splits)

lemma parse_exp_split:
  "parse_exp s = Some (ep, t) \<Longrightarrow> s = ep @ t"
  by (cases s) (auto simp: parse_exp_def dest: parse_digits_split split: if_splits list.splits)

lemma parse_number_split:
  assumes "parse_number s = Some (l, t)"
  shows "s = l @ t \<and> l \<noteq> []"
proof -
  let ?sign = "if startsWith s ''-'' then ''-'' else ''''"
  from assms obtain ip s1 fp s2 ep where
    i: "parse_int_part (drop (length ?sign) s) = Some (ip, s1)" and
    f: "parse_frac s1 = Some (fp, s2)" and
    e: "parse_exp s2 = Some (ep, t)" and
    l: "l = ?sign @ ip @ fp @ ep"
    by (auto simp: parse_number_def Let_def split: option.splits)
  have sg: "s = ?sign @ drop (length ?sign) s"
    by (cases s) auto
  from parse_int_part_split [OF i] parse_frac_split [OF f] parse_exp_split [OF e]
  have "drop (length ?sign) s = ip @ fp @ ep @ t" "ip \<noteq> []"
    by auto
  with sg l show ?thesis
    by (metis append.assoc append_is_Nil_conv)
qed

lemma parse_shorter:
  "parse_value n s = Some (v, r) \<Longrightarrow> length r < length s"
  "parse_elements n s = Some (vs, r) \<Longrightarrow> length r < length s"
  "parse_members n s = Some (ms, r) \<Longrightarrow> length r < length s"
proof (induction n s and n s and n s arbitrary: v r and vs r and ms r
    rule: parse_value_parse_elements_parse_members.induct)
  case (1 s)
  then show ?case by simp
next
  case (2 n s)
  obtain c t where sk: "skip_ws s = c # t"
    using "2.prems" by (cases "skip_ws s") auto
  have len: "length t < length s"
    using skip_ws_length [of s] sk by simp
  have tl_len: "length (tl (skip_ws t)) < length s"
    using skip_ws_length [of t] len by simp
  consider (obj) "c = CHR ''{''" | (arr) "c \<noteq> CHR ''{''" "c = CHR ''[''"
    | (str) "c \<noteq> CHR ''{''" "c \<noteq> CHR ''[''" "c = CHR 0x22"
    | (other) "c \<noteq> CHR ''{''" "c \<noteq> CHR ''[''" "c \<noteq> CHR 0x22"
    by blast
  then show ?case
  proof cases
    case obj
    show ?thesis
    proof (cases "startsWith (skip_ws t) ''}''")
      case True
      with "2.prems" sk obj tl_len show ?thesis by simp
    next
      case False
      with "2.prems" sk obj obtain ms where "parse_members n t = Some (ms, r)"
        by auto
      from "2.IH"(1) [OF sk obj False this] len show ?thesis by simp
    qed
  next
    case arr
    show ?thesis
    proof (cases "startsWith (skip_ws t) '']''")
      case True
      with "2.prems" sk arr tl_len show ?thesis by simp
    next
      case False
      with "2.prems" sk arr obtain vs where "parse_elements n t = Some (vs, r)"
        by auto
      from "2.IH"(2) [OF sk arr False this] len show ?thesis by simp
    qed
  next
    case str
    with "2.prems" sk obtain b where "parse_string t = Some (b, r)"
      by auto
    from parse_string_shorter [OF this] len show ?thesis by simp
  next
    case other
    show ?thesis
    proof (cases "startsWith (c # t) ''true'' \<or> startsWith (c # t) ''false''
                  \<or> startsWith (c # t) ''null''")
      case True
      with "2.prems" sk other len show ?thesis
        by (auto split: if_splits)
    next
      case False
      with "2.prems" sk other obtain l where "parse_number (c # t) = Some (l, r)"
        by auto
      from parse_number_split [OF this] have "length r < length (c # t)"
        by (metis length_append length_greater_0_conv less_add_same_cancel2)
      with len show ?thesis by simp
    qed
  qed
next
  case (3 s)
  then show ?case by simp
next
  case (4 n s)
  from "4.prems" obtain v t where pv: "parse_value n s = Some (v, t)"
    by (auto split: option.splits)
  from "4.IH"(1) [OF pv] have l1: "length t < length s" .
  obtain c t' where sk: "skip_ws t = c # t'"
    using "4.prems" pv by (cases "skip_ws t") auto
  have l2: "length t' < length s"
    using skip_ws_length [of t] sk l1 by simp
  show ?case
  proof (cases "c = CHR '',''")
    case True
    with "4.prems" pv sk obtain vs' where pe: "parse_elements n t' = Some (vs', r)"
      by auto
    from "4.IH"(2) [OF pv refl sk True pe] l2 show ?thesis by simp
  next
    case False
    with "4.prems" pv sk l2 show ?thesis
      by (auto split: if_splits)
  qed
next
  case (5 s)
  then show ?case by simp
next
  case (6 n s)
  obtain q t where sk: "skip_ws s = q # t"
    using "6.prems" by (cases "skip_ws s") auto
  have l0: "length t < length s"
    using skip_ws_length [of s] sk by simp
  have q: "q = CHR 0x22"
    using "6.prems" sk by (auto split: if_splits)
  from "6.prems" sk q obtain k r1 where ps: "parse_string t = Some (k, r1)"
    by (auto split: option.splits)
  have l1: "length r1 < length s"
    using parse_string_shorter [OF ps] l0 by simp
  obtain c r2 where sk1: "skip_ws r1 = c # r2"
    using "6.prems" sk q ps by (cases "skip_ws r1") auto
  have c: "c = CHR '':''"
    using "6.prems" sk q ps sk1 by (auto split: if_splits)
  have l2: "length r2 < length s"
    using skip_ws_length [of r1] sk1 l1 by simp
  from "6.prems" sk q ps sk1 c obtain v r3 where pv: "parse_value n r2 = Some (v, r3)"
    by (auto split: option.splits)
  have l3: "length r3 < length s"
    using "6.IH"(1) [OF sk q ps refl sk1 c pv] l2 by simp
  obtain d r4 where sk3: "skip_ws r3 = d # r4"
    using "6.prems" sk q ps sk1 c pv by (cases "skip_ws r3") auto
  have l4: "length r4 < length s"
    using skip_ws_length [of r3] sk3 l3 by simp
  show ?case
  proof (cases "d = CHR '',''")
    case True
    with "6.prems" sk q ps sk1 c pv sk3 obtain ms' where pm: "parse_members n r4 = Some (ms', r)"
      by auto
    from "6.IH"(2) [OF sk q ps refl sk1 c pv refl sk3 True pm] l4 show ?thesis by simp
  next
    case False
    with "6.prems" sk q ps sk1 c pv sk3 l4 show ?thesis
      by (auto split: if_splits)
  qed
qed

lemma fuel_step:
  "2 * length s + 1 \<le> n \<Longrightarrow> parse_value (Suc n) s = parse_value n s"
  "2 * length s + 2 \<le> n \<Longrightarrow> parse_elements (Suc n) s = parse_elements n s"
  "2 * length s + 1 \<le> n \<Longrightarrow> parse_members (Suc n) s = parse_members n s"
proof (induction n s and n s and n s rule: parse_value_parse_elements_parse_members.induct)
  case (1 s)
  then show ?case by simp
next
  case (2 n s)
  have L: "parse_value (Suc (Suc n)) s = parse_value (Suc n) s"
  proof (cases "skip_ws s")
    case Nil
    then show ?thesis by simp
  next
    case (Cons c t)
    have len: "length t < length s"
      using skip_ws_length [of s] Cons by simp
    have m: "parse_members (Suc n) t = parse_members n t"
      if "c = CHR ''{''" "\<not> startsWith (skip_ws t) ''}''"
      using "2.IH"(1) [OF Cons that] "2.prems" len by simp
    have e: "parse_elements (Suc n) t = parse_elements n t"
      if "c \<noteq> CHR ''{''" "c = CHR ''[''" "\<not> startsWith (skip_ws t) '']''"
      using "2.IH"(2) [OF Cons that] "2.prems" len by simp
    show ?thesis
      unfolding parse_value.simps(2) [of "Suc n" s] parse_value.simps(2) [of n s] Cons
      using m e
      by (simp del: parse_value.simps parse_elements.simps parse_members.simps)
  qed
  then show ?case .
next
  case (3 s)
  then show ?case by simp
next
  case (4 n s)
  have v: "parse_value (Suc n) s = parse_value n s"
    using "4.IH"(1) "4.prems" by simp
  have e: "parse_elements (Suc n) r' = parse_elements n r'"
    if "parse_value n s = Some (x, r)" "skip_ws r = c # r'" "c = CHR '',''" for x r c r'
  proof -
    have "length r < length s"
      using parse_shorter(1) [OF that(1)] .
    moreover have "length r' < length r"
      using skip_ws_length [of r] that(2) by simp
    ultimately have "2 * length r' + 2 \<le> n"
      using "4.prems" by simp
    with "4.IH"(2) [OF that(1) refl that(2,3)] show ?thesis .
  qed
  show ?case
    unfolding parse_elements.simps(2) [of "Suc n" s] parse_elements.simps(2) [of n s] v
    using e
    by (auto simp del: parse_value.simps parse_elements.simps parse_members.simps
        split: option.splits list.splits)
next
  case (5 s)
  then show ?case by simp
next
  case (6 n s)
  have v: "parse_value (Suc n) r2 = parse_value n r2"
    if "skip_ws s = q # t" "q = CHR 0x22" "parse_string t = Some (k, r1)"
       "skip_ws r1 = c # r2" "c = CHR '':''" for q t k r1 c r2
  proof -
    have "length t < length s"
      using skip_ws_length [of s] that(1) by simp
    moreover have "length r1 < length t"
      using parse_string_shorter [OF that(3)] .
    moreover have "length r2 < length r1"
      using skip_ws_length [of r1] that(4) by simp
    ultimately have "2 * length r2 + 1 \<le> n"
      using "6.prems" by simp
    with "6.IH"(1) [OF that(1,2,3) refl that(4,5)] show ?thesis .
  qed
  have m: "parse_members (Suc n) r4 = parse_members n r4"
    if "skip_ws s = q # t" "q = CHR 0x22" "parse_string t = Some (k, r1)"
       "skip_ws r1 = c # r2" "c = CHR '':''" "parse_value n r2 = Some (x, r3)"
       "skip_ws r3 = d # r4" "d = CHR '',''" for q t k r1 c r2 x r3 d r4
  proof -
    have "length t < length s"
      using skip_ws_length [of s] that(1) by simp
    moreover have "length r1 < length t"
      using parse_string_shorter [OF that(3)] .
    moreover have "length r2 < length r1"
      using skip_ws_length [of r1] that(4) by simp
    moreover have "length r3 < length r2"
      using parse_shorter(1) [OF that(6)] .
    moreover have "length r4 < length r3"
      using skip_ws_length [of r3] that(7) by simp
    ultimately have "2 * length r4 + 1 \<le> n"
      using "6.prems" by simp
    with "6.IH"(2) [OF that(1,2,3) refl that(4,5,6) refl that(7,8)] show ?thesis .
  qed
  show ?case
    unfolding parse_members.simps(2) [of "Suc n" s] parse_members.simps(2) [of n s]
    using v m
    by (auto simp del: parse_value.simps parse_elements.simps parse_members.simps
        split: option.splits list.splits)
qed

lemma fuel_enough:
  "2 * length s + 1 \<le> n \<Longrightarrow> parse_value n s = parse_value (2 * length s + 1) s"
proof (induction n)
  case 0
  then show ?case by simp
next
  case (Suc n)
  show ?case
  proof (cases "2 * length s + 1 \<le> n")
    case True
    with Suc.IH fuel_step(1) [OF True] show ?thesis by simp
  next
    case False
    with Suc.prems have "Suc n = 2 * length s + 1" by simp
    then show ?thesis by simp
  qed
qed

lemma JSON_parse_any_bound:
  "2 * length text + 1 \<le> n
   \<Longrightarrow> JSON_parse text
       = (case parse_value n text of
            None \<Rightarrow> None
          | Some (v, r) \<Rightarrow> if skip_ws r = [] then Some v else None)"
  by (simp add: JSON_parse_def fuel_enough [of "text" n])

subsection \<open>The inference retry executor\<close>

lemma show_nat_digits:
  "show_nat (Suc (Suc 0)) = ''2''" "show_nat (Suc (Suc (Suc 0))) = ''3''"
  "show_nat 2 = ''2''" "show_nat 3 = ''3''"
  by code_simp+

text \<open>
  C2. When the first two inference calls fail with status 503 and the third succeeds, the
  retry loop awaits exactly two delays, 4000 ms before the second call and 8000 ms before
  the third, issues three calls, and returns the text of the third response (the empty
  text when the response has none).
\<close>

theorem retry_503_503_success:
  assumes "status e1 = Some 503" and "status e2 = Some 503"
  shows "retryLoop part [Inl e1, Inl e2, Inr text] 0 False ''''
         = Some ([GenerateContent part,
                  Sleep 4000,
                  SetLoadingStage ''Retrying analysis (Attempt 2/3)...'', SetRetryCount 1,
                  GenerateContent part,
                  Sleep 8000,
                  SetLoadingStage ''Retrying analysis (Attempt 3/3)...'', SetRetryCount 2,
                  GenerateContent part],
                 Inr (case text of None \<Rightarrow> '''' | Some t \<Rightarrow> t))
       \<and> observe (retryLoop part [Inl e1, Inl e2, Inr text] 0 False '''')
         = Some ([4000, 8000], 3, Inr (case text of None \<Rightarrow> '''' | Some t \<Rightarrow> t))"
  using assms
  by (simp add: observe_def isRetryable_def MAX_RETRIES_def prepend_trace_def show_nat_digits)

theorem retry_503_503_success_witness:
  "observe (retryLoop (InlineData ''video/mp4'' (Some ''AAAA''))
      [Inl (api_error ''Service Unavailable'' 503),
       Inl (api_error ''Service Unavailable'' 503),
       Inr (Some ''{}'')] 0 False '''')
   = Some ([4000, 8000], 3, Inr ''{}'')"
proof -
  have h: "status (api_error ''Service Unavailable'' 503) = Some 503"
    by (simp add: api_error_def)
  show ?thesis
    using conjunct2 [OF retry_503_503_success [OF h h, of _ "Some ''{}''"]]
    by (simp del: retryLoop.simps)
qed




text \<open>
  C4. When an inference call fails with an error that is not retryable (status and code
  neither 429 nor 503, and a message with neither \<open>overloaded\<close> nor \<open>fetch\<close> in it), the
  retry loop throws that error at once: on the first attempt the call is the whole trace,
  and on any attempt no delay is awaited and no further call is issued.
\<close>

theorem non_retryable_thrown_at_once:
  assumes "status e \<noteq> Some 429" and "status e \<noteq> Some 503"
    and "code e \<noteq> Some 429" and "code e \<noteq> Some 503"
    and "\<forall>m. message e = Some m \<longrightarrow> \<not> includes_str m ''overloaded'' \<and> \<not> includes_str m ''fetch''"
  shows "retryLoop part (Inl e # rest) 0 False '''' = Some ([GenerateContent part], Inl e)
       \<and> (attempt < MAX_RETRIES \<longrightarrow>
            observe (retryLoop part (Inl e # rest) attempt False txt) = Some ([], 1, Inl e))"
proof -
  have "\<not> isRetryable e"
    using assms by (auto simp: isRetryable_def split: option.splits)
  then show ?thesis
    by (simp add: observe_def MAX_RETRIES_def)
qed

theorem non_retryable_thrown_at_once_witness:
  "retryLoop (InlineData ''video/mp4'' (Some ''AAAA''))
     [Inl (api_error ''Bad Request'' 400), Inr (Some ''{}'')] 0 False ''''
   = Some ([GenerateContent (InlineData ''video/mp4'' (Some ''AAAA''))],
           Inl (api_error ''Bad Request'' 400))
   \<and> (1::nat) < MAX_RETRIES
   \<and> observe (retryLoop (InlineData ''video/mp4'' (Some ''AAAA''))
        [Inl (api_error ''Bad Request'' 400), Inr (Some ''{}'')] 1 False '''')
     = Some ([], 1, Inl (api_error ''Bad Request'' 400))"
  using non_retryable_thrown_at_once
          [of "api_error ''Bad Request'' 400" "InlineData ''video/mp4'' (Some ''AAAA'')"
              "[Inr (Some ''{}'')]" 1 "''''"]
  by (simp add: api_error_def MAX_RETRIES_def)

subsection \<open>The readiness poller\<close>

lemma file_reads_append [simp]: "file_reads (a @ b) = file_reads a + file_reads b"
  by (induction a rule: file_reads.induct) simp_all







text \<open>
  C6, as amended. The loop sleeps before every status check, the first included. When the
  server answers \<open>PROCESSING\<close>, \<open>PROCESSING\<close>, \<open>ACTIVE\<close>, the loop ends in state \<open>ACTIVE\<close>
  after exactly three sleeps of 2000 ms; when it answers \<open>PROCESSING\<close>, \<open>FAILED\<close>, the run
  throws \<open>Video processing failed on server.\<close> after exactly two.
\<close>

theorem poll_sleeps_before_each_check:
  "pollLoop fileName key (Some ''PROCESSING'')
     [status_ok ''PROCESSING'', status_ok ''PROCESSING'', status_ok ''ACTIVE'']
   = Some ([Sleep 2000, Fetch ''GET'' (state_endpoint fileName key),
            Sleep 2000, Fetch ''GET'' (state_endpoint fileName key),
            Sleep 2000, Fetch ''GET'' (state_endpoint fileName key)], Inr (Some ''ACTIVE''))
   \<and> awaitReady fileName key
        [status_ok ''PROCESSING'', status_ok ''PROCESSING'', status_ok ''ACTIVE'']
     = Some ([Sleep 2000, Fetch ''GET'' (state_endpoint fileName key),
              Sleep 2000, Fetch ''GET'' (state_endpoint fileName key),
              Sleep 2000, Fetch ''GET'' (state_endpoint fileName key)], Inr ())
   \<and> awaitReady fileName key [status_ok ''PROCESSING'', status_ok ''FAILED'']
     = Some ([Sleep 2000, Fetch ''GET'' (state_endpoint fileName key),
              Sleep 2000, Fetch ''GET'' (state_endpoint fileName key)],
             Inl (new_Error ''Video processing failed on server.''))"
  by (simp add: awaitReady_def getFileState_def status_ok_def prepend_trace_def)

text \<open>
  C6, as stated, fails: on \<open>PROCESSING\<close>, \<open>PROCESSING\<close>, \<open>ACTIVE\<close> the delays awaited are not
  two sleeps of 2000 ms, and on \<open>PROCESSING\<close>, \<open>FAILED\<close> they are not one.
\<close>

theorem poll_two_sleeps_counterexample:
  "delays_of (pollLoop ''files/abc'' ''key'' (Some ''PROCESSING'')
     [status_ok ''PROCESSING'', status_ok ''PROCESSING'', status_ok ''ACTIVE''])
   \<noteq> Some [2000, 2000]
   \<and> delays_of (awaitReady ''files/abc'' ''key'' [status_ok ''PROCESSING'', status_ok ''FAILED''])
     \<noteq> Some [2000]"
  by (simp add: delays_of_def awaitReady_def getFileState_def status_ok_def prepend_trace_def)

subsection \<open>The ingestion strategy\<close>



lemma content_parts_append [simp]:
  "content_parts (a @ b) = content_parts a @ content_parts b"
  by (induction a rule: content_parts.induct) simp_all

lemma requests_append [simp]: "requests (a @ b) = requests a @ requests b"
  by (induction a rule: requests.induct) simp_all




















subsection \<open>The size ceiling\<close>

lemma show_nat_2000: "show_nat 2000 = ''2000''"
  by code_simp

lemma show_nat_0: "show_nat 0 = ''0''"
  by code_simp

lemma toFixed_sample: "size_MB_toFixed1 2097152001 = ''2000.0''"
  by (simp add: size_MB_toFixed1_def show_nat_2000 show_nat_0)

text \<open>
  C7. A selected file of more than 2000 MiB only sets the error \<open>File too large\<close> and the
  detail \<open>The limit is 2000MB.\<close>: \<open>handleFileChange\<close> issues no request and does not store
  the file. A run started after such a selection on a fresh component does nothing at
  all, and the stored file, if any, is always within the ceiling, so that the branch on
  the size in \<open>runAnalysis\<close> never sees a file above it.
\<close>

theorem oversize_rejected_at_selection:
  assumes "2000 * 1024 * 1024 < file_size f"
  shows "handleFileChange (Some f) st
         = st\<lparr>error := Some (''File too large ('' @ size_MB_toFixed1 (file_size f) @ ''MB).''),
              errorDetails := Some ''The limit is 2000MB.''\<rparr>
       \<and> runAnalysis env (handleFileChange (Some f) initial_state)
         = Some ([], handleFileChange (Some f) initial_state)
       \<and> ((\<forall>g. selected_file st = Some g \<longrightarrow> file_size g \<le> 2000 * 1024 * 1024)
           \<longrightarrow> (\<forall>g. selected_file (handleFileChange sel st) = Some g
                  \<longrightarrow> file_size g \<le> 2000 * 1024 * 1024))"
proof (intro conjI impI)
  show "handleFileChange (Some f) st
         = st\<lparr>error := Some (''File too large ('' @ size_MB_toFixed1 (file_size f) @ ''MB).''),
              errorDetails := Some ''The limit is 2000MB.''\<rparr>"
    using assms by (simp add: handleFileChange_def show_nat_2000 MAX_FILE_SIZE_MB_def)
  show "runAnalysis env (handleFileChange (Some f) initial_state)
         = Some ([], handleFileChange (Some f) initial_state)"
    using assms
    by (simp add: handleFileChange_def MAX_FILE_SIZE_MB_def runAnalysis_def initial_state_def)
  assume inv: "\<forall>g. selected_file st = Some g \<longrightarrow> file_size g \<le> 2000 * 1024 * 1024"
  show "\<forall>g. selected_file (handleFileChange sel st) = Some g
                  \<longrightarrow> file_size g \<le> 2000 * 1024 * 1024"
  proof (cases sel)
    case None
    then show ?thesis using inv by (simp add: handleFileChange_def)
  next
    case (Some h)
    then show ?thesis
      using inv by (cases "2000 * 1024 * 1024 < file_size h")
        (simp_all add: handleFileChange_def MAX_FILE_SIZE_MB_def)
  qed
qed

theorem oversize_rejected_at_selection_witness:
  "2000 * 1024 * 1024 < file_size (sample_file 2097152001)
   \<and> handleFileChange (Some (sample_file 2097152001)) initial_state
     = initial_state\<lparr>error := Some ''File too large (2000.0MB).'',
                     errorDetails := Some ''The limit is 2000MB.''\<rparr>
   \<and> runAnalysis (sample_env []) (handleFileChange (Some (sample_file 2097152001)) initial_state)
     = Some ([], handleFileChange (Some (sample_file 2097152001)) initial_state)
   \<and> selected_file (handleFileChange (Some (sample_file 5242880)) initial_state)
     = Some (sample_file 5242880)
   \<and> file_size (sample_file 5242880) \<le> 2000 * 1024 * 1024"
proof -
  have big: "2000 * 1024 * 1024 < file_size (sample_file 2097152001)"
    by (simp add: sample_file_def)
  have i: "\<forall>g. selected_file initial_state = Some g \<longrightarrow> file_size g \<le> 2000 * 1024 * 1024"
    by (simp add: initial_state_def)
  have fs: "file_size (sample_file 2097152001) = 2097152001"
    by (simp add: sample_file_def)
  note t = oversize_rejected_at_selection
             [OF big, of initial_state "sample_env []" "Some (sample_file 2097152001)"]
  from t have a: "handleFileChange (Some (sample_file 2097152001)) initial_state
     = initial_state\<lparr>error := Some ''File too large (2000.0MB).'',
                     errorDetails := Some ''The limit is 2000MB.''\<rparr>"
    by (simp add: fs toFixed_sample)
  from t have b:
    "runAnalysis (sample_env []) (handleFileChange (Some (sample_file 2097152001)) initial_state)
     = Some ([], handleFileChange (Some (sample_file 2097152001)) initial_state)"
    by (rule conjunct1 [OF conjunct2])
  have c: "selected_file (handleFileChange (Some (sample_file 5242880)) initial_state)
           = Some (sample_file 5242880)"
    by (simp add: handleFileChange_def MAX_FILE_SIZE_MB_def sample_file_def)
  note t' = oversize_rejected_at_selection
              [OF big, of initial_state "sample_env []" "Some (sample_file 5242880)"]
  from t' i
  have e: "\<forall>g. selected_file (handleFileChange (Some (sample_file 5242880)) initial_state) = Some g
          \<longrightarrow> file_size g \<le> 2000 * 1024 * 1024"
    by (rule mp [OF conjunct2 [OF conjunct2]])
  have d: "file_size (sample_file 5242880) \<le> 2000 * 1024 * 1024"
    by (rule mp [OF spec [OF e] c])
  show ?thesis
    by (intro conjI big a b c d)
qed

subsection \<open>The run\<close>

lemma apply_effect_keeps:
  "rawResponse (apply_effect x st) = rawResponse st"
  "analysisData (apply_effect x st) = analysisData st"
  "error (apply_effect x st) = error st"
  "errorDetails (apply_effect x st) = errorDetails st"
  "isAnalyzing (apply_effect x st) = isAnalyzing st"
  "selected_file (apply_effect x st) = selected_file st"
  by (cases x; simp)+

lemma fold_apply_effect_keeps [simp]:
  "rawResponse (fold apply_effect tr st) = rawResponse st"
  "analysisData (fold apply_effect tr st) = analysisData st"
  "error (fold apply_effect tr st) = error st"
  "errorDetails (fold apply_effect tr st) = errorDetails st"
  "isAnalyzing (fold apply_effect tr st) = isAnalyzing st"
  "selected_file (fold apply_effect tr st) = selected_file st"
  by (induction tr arbitrary: st; simp add: apply_effect_keeps)+

text \<open>
  C10. When the content part is ready and the retry loop returns an empty text (an
  inference call succeeded with an empty or absent \<open>text\<close>), the run ends with the error
  \<open>Analysis Failed\<close> and the detail \<open>Empty response from AI.\<close>, with no analysis data: the
  response is not given to the extractor, whose own failure has another detail.
\<close>

theorem empty_response_fails_run:
  assumes "selected_file st = Some f" and "apiKey env \<noteq> []"
    and "prepareContent env f = Some (tr1, Inr part)"
    and "retryLoop part (inferenceOutcomes env) 0 False '''' = Some (tr2, Inr '''')"
  shows "\<exists>trace st'. runAnalysis env st = Some (trace, st')
           \<and> error st' = Some ''Analysis Failed''
           \<and> errorDetails st' = Some ''Empty response from AI.''
           \<and> analysisData st' = JNull \<and> rawResponse st' = '''' \<and> \<not> isAnalyzing st'"
  using assms
  by (simp add: runAnalysis_def tryBlock_def Let_def error_details_def new_Error_def)

theorem empty_response_fails_run_witness:
  "\<exists>trace st'.
      runAnalysis (sample_env [Inr None]) (initial_state\<lparr>selected_file := Some (sample_file 5242880)\<rparr>)
        = Some (trace, st')
      \<and> error st' = Some ''Analysis Failed''
      \<and> errorDetails st' = Some ''Empty response from AI.''
      \<and> analysisData st' = JNull \<and> rawResponse st' = '''' \<and> \<not> isAnalyzing st'"
proof -
  have sel: "selected_file (initial_state\<lparr>selected_file := Some (sample_file 5242880)\<rparr>)
             = Some (sample_file 5242880)"
    by simp
  have key: "apiKey (sample_env [Inr None]) \<noteq> []"
    by (simp add: sample_env_def)
  have retry: "retryLoop (InlineData ''video/mp4'' (Some ''AAAA''))
                 (inferenceOutcomes (sample_env [Inr None])) 0 False ''''
               = Some ([GenerateContent (InlineData ''video/mp4'' (Some ''AAAA''))], Inr '''')"
    by (simp add: sample_env_def MAX_RETRIES_def prepend_trace_def)
  show ?thesis
    by (rule empty_response_fails_run [OF sel key sample_small_run retry])
qed

subsection \<open>The response extractor\<close>

text \<open>
  C9, as amended. When the direct parse, the parse of the fenced interior and the parse of
  the text between the braces all fail, \<open>tryParseJSON\<close> returns no value: it throws an error
  whose message is the fixed text \<open>Could not parse JSON from response.\<close> The raw text is
  kept by the caller: \<open>runAnalysis\<close> stores it in \<open>rawResponse\<close> before it calls the
  extractor, and the failed run keeps it there, with no analysis data.
\<close>

theorem unparsable_response_throws:
  assumes "JSON_parse text = None"
    and "\<forall>g. markdownMatch text = Some g \<longrightarrow> JSON_parse g = None"
    and "\<forall>a b. indexOf text (CHR ''{'') = Some a \<and> lastIndexOf text (CHR ''}'') = Some b
             \<longrightarrow> JSON_parse (substring text a (b + 1)) = None"
  shows "tryParseJSON text = Inl (new_Error ''Could not parse JSON from response.'')
       \<and> (text \<noteq> [] \<and> selected_file st = Some f \<and> apiKey env \<noteq> []
            \<and> prepareContent env f = Some (tr1, Inr part)
            \<and> retryLoop part (inferenceOutcomes env) 0 False '''' = Some (tr2, Inr text)
          \<longrightarrow> (\<exists>trace st'. runAnalysis env st = Some (trace, st')
                 \<and> rawResponse st' = text
                 \<and> error st' = Some ''Analysis Failed''
                 \<and> errorDetails st' = Some ''Could not parse JSON from response.''
                 \<and> analysisData st' = JNull \<and> \<not> isAnalyzing st'))"
proof -
  have p: "tryParseJSON text = Inl (new_Error ''Could not parse JSON from response.'')"
    using assms by (auto simp: tryParseJSON_def split: option.splits)
  show ?thesis
    using p
    by (auto simp add: runAnalysis_def tryBlock_def Let_def error_details_def new_Error_def)
qed

lemma dark_clip_strategies:
  "JSON_parse ''The clip is too dark.'' = None"
  "markdownMatch ''The clip is too dark.'' = None"
  "indexOf ''The clip is too dark.'' (CHR ''{'') = None"
  by code_simp+

theorem unparsable_response_throws_witness:
  "tryParseJSON ''The clip is too dark.'' = Inl (new_Error ''Could not parse JSON from response.'')
   \<and> (\<exists>trace st'.
        runAnalysis (sample_env [Inr (Some ''The clip is too dark.'')])
          (initial_state\<lparr>selected_file := Some (sample_file 5242880)\<rparr>)
          = Some (trace, st')
        \<and> rawResponse st' = ''The clip is too dark.''
        \<and> error st' = Some ''Analysis Failed''
        \<and> errorDetails st' = Some ''Could not parse JSON from response.''
        \<and> analysisData st' = JNull \<and> \<not> isAnalyzing st')"
proof -
  have h1: "JSON_parse ''The clip is too dark.'' = None"
    by (rule dark_clip_strategies)
  have h2: "\<forall>g. markdownMatch ''The clip is too dark.'' = Some g \<longrightarrow> JSON_parse g = None"
    by (simp add: dark_clip_strategies)
  have h3: "\<forall>a b. indexOf ''The clip is too dark.'' (CHR ''{'') = Some a
               \<and> lastIndexOf ''The clip is too dark.'' (CHR ''}'') = Some b
             \<longrightarrow> JSON_parse (substring ''The clip is too dark.'' a (b + 1)) = None"
    by (simp add: dark_clip_strategies)
  have sel: "selected_file (initial_state\<lparr>selected_file := Some (sample_file 5242880)\<rparr>)
             = Some (sample_file 5242880)"
    by simp
  have key: "apiKey (sample_env [Inr (Some ''The clip is too dark.'')]) \<noteq> []"
    by (simp add: sample_env_def)
  have retry: "retryLoop (InlineData ''video/mp4'' (Some ''AAAA''))
                 (inferenceOutcomes (sample_env [Inr (Some ''The clip is too dark.'')])) 0 False ''''
               = Some ([GenerateContent (InlineData ''video/mp4'' (Some ''AAAA''))],
                       Inr ''The clip is too dark.'')"
    by (simp add: sample_env_def MAX_RETRIES_def prepend_trace_def)
  have ne: "''The clip is too dark.'' \<noteq> []"
    by simp
  note t = unparsable_response_throws
             [OF h1 h2 h3,
              of "initial_state\<lparr>selected_file := Some (sample_file 5242880)\<rparr>"
                 "sample_file 5242880" "sample_env [Inr (Some ''The clip is too dark.'')]"
                 "[SetLoadingStage ''Encoding video (Inline)...'',
                   ReadAsDataURL (sample_file 5242880)]"
                 "InlineData ''video/mp4'' (Some ''AAAA'')"
                 "[GenerateContent (InlineData ''video/mp4'' (Some ''AAAA''))]"]
  show ?thesis
  proof (rule conjI)
    show "tryParseJSON ''The clip is too dark.''
          = Inl (new_Error ''Could not parse JSON from response.'')"
      by (rule conjunct1 [OF t])
    show "\<exists>trace st'.
        runAnalysis (sample_env [Inr (Some ''The clip is too dark.'')])
          (initial_state\<lparr>selected_file := Some (sample_file 5242880)\<rparr>)
          = Some (trace, st')
        \<and> rawResponse st' = ''The clip is too dark.''
        \<and> error st' = Some ''Analysis Failed''
        \<and> errorDetails st' = Some ''Could not parse JSON from response.''
        \<and> analysisData st' = JNull \<and> \<not> isAnalyzing st'"
      by (rule mp [OF conjunct2 [OF t]]) (intro conjI ne sel key sample_small_run retry)
  qed
qed

text \<open>
  C9, as stated, fails: the error thrown is the same for two different raw texts, and its
  message does not contain the raw text, so it does not carry it.
\<close>

theorem thrown_error_without_raw_text:
  "tryParseJSON ''The clip is too dark.'' = Inl (new_Error ''Could not parse JSON from response.'')
   \<and> tryParseJSON ''No events found.'' = tryParseJSON ''The clip is too dark.''
   \<and> ''No events found.'' \<noteq> ''The clip is too dark.''
   \<and> \<not> includes_str ''Could not parse JSON from response.'' ''The clip is too dark.''"
  by code_simp

subsection \<open>The extractor on wrapped documents\<close>

lemma startsWith_self [simp]: "startsWith (p @ r) p"
  by (induction p) simp_all

lemma JSON_parse_empty: "JSON_parse [] = None"
  by (simp add: JSON_parse_def skip_ws_def)

lemma JSON_parse_backtick: "JSON_parse (CHR 0x60 # r) = None"
  by (simp add: JSON_parse_def skip_ws_def is_json_ws_def parse_number_def parse_int_part_def
      parse_digits_def is_digit_def)

lemma JSON_parse_j: "JSON_parse (CHR ''j'' # r) = None"
  by (simp add: JSON_parse_def skip_ws_def is_json_ws_def parse_number_def parse_int_part_def
      parse_digits_def is_digit_def)

lemma find_fence_prefix:
  assumes "\<not> includes_str pre fence" and "pre = [] \<or> last pre \<noteq> CHR 0x60"
  shows "find_fence (pre @ fence @ r) = Some r"
  using assms
proof (induction pre)
  case Nil
  show ?case by (simp add: fence_def)
next
  case (Cons c pre)
  have no: "\<not> startsWith ((c # pre) @ fence @ r) fence"
  proof (cases pre)
    case Nil
    with Cons.prems(2) show ?thesis by (simp add: fence_def)
  next
    case one: (Cons d pre')
    show ?thesis
    proof (cases pre')
      case Nil
      with one Cons.prems(2) show ?thesis by (simp add: fence_def)
    next
      case (Cons e pre'')
      with one Cons.prems(1) show ?thesis by (simp add: fence_def)
    qed
  qed
  have "find_fence (pre @ fence @ r) = Some r"
    using Cons by (auto split: if_splits)
  with no show ?case by simp
qed

lemma closes_fence_capture: "closes_fence x \<Longrightarrow> lazy_capture x = Some []"
  by (cases x) (simp_all add: closes_fence_def fence_def)

lemma startsWith_includes: "startsWith b p \<Longrightarrow> includes_str (a @ b) p"
proof (induction a)
  case Nil
  then show ?case by (cases b; cases p) simp_all
next
  case (Cons c a)
  then show ?case by simp
qed

text \<open>
  A text without three backticks in a row that ends with a character other than white
  space and backtick has no closing fence before its end, whatever follows it.
\<close>

lemma not_closes_fence:
  assumes "\<not> includes_str s fence" and "s \<noteq> []"
    and "\<not> is_js_space (last s)" and "last s \<noteq> CHR 0x60"
  shows "\<not> closes_fence (s @ t)"
proof
  assume closes: "closes_fence (s @ t)"
  have in_s: "last s \<in> set s"
    using assms(2) by (rule last_in_set)
  with assms(3) have "dropWhile is_js_space s \<noteq> []"
    by (auto simp: dropWhile_eq_Nil_conv)
  then obtain y ys where d: "dropWhile is_js_space s = y # ys"
    by (cases "dropWhile is_js_space s") auto
  have app: "dropWhile is_js_space (s @ t) = y # ys @ t"
    using in_s assms(3) d by (simp add: dropWhile_append1)
  have split: "s = takeWhile is_js_space s @ y # ys"
    using takeWhile_dropWhile_id [of is_js_space s] d by simp
  have lasty: "last (y # ys) = last s"
    using arg_cong [OF split, of last] by simp
  from closes app have sw: "startsWith (y # ys @ t) fence"
    by (simp add: closes_fence_def)
  show False
  proof (cases ys)
    case Nil
    with sw lasty assms(4) show False by (simp add: fence_def)
  next
    case one: (Cons z zs)
    show False
    proof (cases zs)
      case Nil
      with one sw lasty assms(4) show False by (simp add: fence_def)
    next
      case (Cons w ws)
      with one sw have "startsWith (y # ys) fence"
        by (simp add: fence_def)
      from startsWith_includes [OF this, of "takeWhile is_js_space s"] split assms(1)
      show False by simp
    qed
  qed
qed

lemma lazy_capture_interior:
  assumes "\<not> includes_str s fence"
    and "s = [] \<or> \<not> is_js_space (last s) \<and> last s \<noteq> CHR 0x60"
    and "\<forall>c\<in>set ws2. is_js_space c"
  shows "lazy_capture (s @ ws2 @ fence @ r) = Some s"
  using assms(1,2)
proof (induction s)
  case Nil
  have "dropWhile is_js_space (ws2 @ fence @ r) = fence @ r"
    using assms(3) by (simp add: dropWhile_append fence_def is_js_space_def)
  then have "closes_fence (ws2 @ fence @ r)"
    by (simp add: closes_fence_def fence_def)
  then show ?case
    by (simp add: closes_fence_capture)
next
  case (Cons c s)
  from Cons.prems have "\<not> closes_fence ((c # s) @ ws2 @ fence @ r)"
    by (intro not_closes_fence) auto
  moreover have "lazy_capture (s @ ws2 @ fence @ r) = Some s"
    using Cons by (auto split: if_splits)
  ultimately show ?case by simp
qed

text \<open>The lazy group never goes beyond a place where a closing fence follows.\<close>

lemma lazy_capture_prefix:
  "closes_fence t \<Longrightarrow> \<exists>k\<le>length s. lazy_capture (s @ t) = Some (take k s)"
proof (induction s)
  case Nil
  then show ?case by (simp add: closes_fence_capture)
next
  case (Cons c s)
  then obtain k where k: "k \<le> length s" "lazy_capture (s @ t) = Some (take k s)"
    by auto
  show ?case
  proof (cases "closes_fence ((c # s) @ t)")
    case True
    then have "lazy_capture ((c # s) @ t) = Some (take 0 (c # s))"
      by simp
    then show ?thesis by blast
  next
    case False
    with k have "lazy_capture ((c # s) @ t) = Some (take (Suc k) (c # s))"
      by simp
    with k(1) show ?thesis
      by (intro exI [of _ "Suc k"]) simp
  qed
qed

text \<open>
  The match on a text whose leftmost three backticks open a block, with a tag or none and
  white space, before a text \<open>s\<close> that does not start with white space.
\<close>

lemma markdownMatch_opening:
  assumes "\<not> includes_str pre fence" and "pre = [] \<or> last pre \<noteq> CHR 0x60"
    and "s \<noteq> []" and "\<not> is_js_space (hd s)" and "hd s \<noteq> CHR ''j''"
    and "tag = [] \<or> tag = ''json''"
    and "\<forall>c\<in>set ws1. is_js_space c"
  shows "markdownMatch (pre @ fence @ tag @ ws1 @ s @ x) = lazy_capture (s @ x)"
proof -
  obtain c s' where s: "s = c # s'" using assms(3) by (cases s) auto
  have c: "\<not> is_js_space c" using assms(4) s by simp
  have drop: "dropWhile is_js_space (ws1 @ s @ x) = s @ x"
    using assms(7) c s by (simp add: dropWhile_append)
  have notag: "\<not> startsWith (ws1 @ s @ x) ''json''"
  proof (cases ws1)
    case Nil
    then show ?thesis using assms(5) s by auto
  next
    case (Cons w ws)
    then have "is_js_space w" using assms(7) by simp
    then have "w \<noteq> CHR ''j''" by (auto simp: is_js_space_def)
    then show ?thesis using Cons by simp
  qed
  show ?thesis
    using assms(6)
  proof
    assume "tag = []"
    then show ?thesis
      using find_fence_prefix [OF assms(1,2), of "ws1 @ s @ x"] notag drop
      by (simp add: markdownMatch_def)
  next
    assume "tag = ''json''"
    then show ?thesis
      using find_fence_prefix [OF assms(1,2), of "''json'' @ ws1 @ s @ x"] drop
      by (simp add: markdownMatch_def)
  qed
qed

lemma indexOf_first:
  "c \<notin> set pre \<Longrightarrow> indexOf (pre @ c # r) c = Some (length pre)"
  by (induction pre) auto

lemma lastIndexOf_last:
  "c \<notin> set suf \<Longrightarrow> lastIndexOf (pre @ c # suf) c = Some (length pre)"
  using indexOf_first [of c "rev suf" "rev pre"]
  by (simp add: lastIndexOf_def)

lemma brace_slice:
  assumes "s \<noteq> []" and "hd s = CHR ''{''" and "last s = CHR ''}''"
    and "CHR ''{'' \<notin> set pre" and "CHR ''}'' \<notin> set suf"
  shows "indexOf (pre @ s @ suf) (CHR ''{'') = Some (length pre)"
    and "lastIndexOf (pre @ s @ suf) (CHR ''}'') = Some (length pre + length s - 1)"
    and "substring (pre @ s @ suf) (length pre) (length pre + length s - 1 + 1) = s"
proof -
  obtain s' where h: "s = CHR ''{'' # s'" using assms(1,2) by (cases s) auto
  obtain s'' where l: "s = s'' @ [CHR ''}'']" using assms(1,3)
    by (metis append_butlast_last_id)
  show "indexOf (pre @ s @ suf) (CHR ''{'') = Some (length pre)"
    using indexOf_first [OF assms(4)] h by simp
  show "lastIndexOf (pre @ s @ suf) (CHR ''}'') = Some (length pre + length s - 1)"
    using lastIndexOf_last [OF assms(5), of "pre @ s''"] l by simp
  show "substring (pre @ s @ suf) (length pre) (length pre + length s - 1 + 1) = s"
    using assms(1) by (cases s) (simp_all add: substring_def)
qed

text \<open>
  The extractor on a text \<open>s\<close> that parses to \<open>D\<close>: alone, inside a fenced block, and
  between a prefix and a suffix.
\<close>

lemma extractor_on_parsable:
  assumes "JSON_parse s = Some D"
  shows "tryParseJSON s = Inr D
    \<and> (\<not> includes_str pre fence \<and> (pre = [] \<or> last pre \<noteq> CHR 0x60)
         \<and> \<not> includes_str s fence
         \<and> \<not> is_js_space (hd s) \<and> \<not> is_js_space (last s) \<and> last s \<noteq> CHR 0x60
         \<and> (tag = [] \<or> tag = ''json'')
         \<and> (\<forall>c\<in>set ws1. is_js_space c) \<and> (\<forall>c\<in>set ws2. is_js_space c)
         \<and> (pre = [] \<or> JSON_parse (pre @ fence @ tag @ ws1 @ s @ ws2 @ fence @ rest) \<in> {None, Some D})
       \<longrightarrow> tryParseJSON (pre @ fence @ tag @ ws1 @ s @ ws2 @ fence @ rest) = Inr D)
    \<and> (hd s = CHR ''{'' \<and> last s = CHR ''}''
         \<and> CHR ''{'' \<notin> set before \<and> CHR ''}'' \<notin> set suf
         \<and> JSON_parse (before @ s @ suf) \<in> {None, Some D}
         \<and> (\<forall>g. markdownMatch (before @ s @ suf) = Some g \<longrightarrow> JSON_parse g \<in> {None, Some D})
       \<longrightarrow> tryParseJSON (before @ s @ suf) = Inr D)"
proof (intro conjI impI)
  show "tryParseJSON s = Inr D"
    using assms by (simp add: tryParseJSON_def)
  have ne: "s \<noteq> []"
    using assms JSON_parse_empty by auto
  have nj: "hd s \<noteq> CHR ''j''"
    using assms ne JSON_parse_j by (cases s) auto
  {
    assume h: "\<not> includes_str pre fence \<and> (pre = [] \<or> last pre \<noteq> CHR 0x60)
         \<and> \<not> includes_str s fence
         \<and> \<not> is_js_space (hd s) \<and> \<not> is_js_space (last s) \<and> last s \<noteq> CHR 0x60
         \<and> (tag = [] \<or> tag = ''json'')
         \<and> (\<forall>c\<in>set ws1. is_js_space c) \<and> (\<forall>c\<in>set ws2. is_js_space c)
         \<and> (pre = [] \<or> JSON_parse (pre @ fence @ tag @ ws1 @ s @ ws2 @ fence @ rest) \<in> {None, Some D})"
    let ?text = "pre @ fence @ tag @ ws1 @ s @ ws2 @ fence @ rest"
    have "markdownMatch ?text = lazy_capture (s @ ws2 @ fence @ rest)"
      using h ne nj by (intro markdownMatch_opening) auto
    moreover have "lazy_capture (s @ ws2 @ fence @ rest) = Some s"
      using h by (intro lazy_capture_interior) auto
    ultimately have m: "markdownMatch ?text = Some s"
      by simp
    have "JSON_parse ?text \<in> {None, Some D}"
      using h JSON_parse_backtick by (auto simp: fence_def)
    then show "tryParseJSON ?text = Inr D"
      using m assms by (auto simp: tryParseJSON_def)
  }
  {
    assume h: "hd s = CHR ''{'' \<and> last s = CHR ''}''
         \<and> CHR ''{'' \<notin> set before \<and> CHR ''}'' \<notin> set suf
         \<and> JSON_parse (before @ s @ suf) \<in> {None, Some D}
         \<and> (\<forall>g. markdownMatch (before @ s @ suf) = Some g \<longrightarrow> JSON_parse g \<in> {None, Some D})"
    have b: "indexOf (before @ s @ suf) (CHR ''{'') = Some (length before)"
      "lastIndexOf (before @ s @ suf) (CHR ''}'') = Some (length before + length s - 1)"
      "substring (before @ s @ suf) (length before) (length before + length s - 1 + 1) = s"
      using brace_slice [of s before suf] ne h by auto
    show "tryParseJSON (before @ s @ suf) = Inr D"
      using h b assms by (auto simp: tryParseJSON_def split: option.splits)
  }
qed

subsection \<open>Serialized documents parse back\<close>

lemma parse_string_ext:
  "parse_string s = Some (b, t) \<Longrightarrow> parse_string (s @ r) = Some (b, t @ r)"
proof (induction s arbitrary: b t rule: parse_string.induct)
  case 1
  then show ?case by simp
next
  case (2 c cs)
  show ?case
  proof (cases cs)
    case Nil
    with "2.prems" show ?thesis
      by (auto split: if_splits)
  next
    case (Cons e r0)
    with 2 show ?thesis
      by (auto split: if_splits)
  qed
qed

lemma takeWhile_digit_ext:
  "value_end r \<Longrightarrow> takeWhile is_digit (s @ r) = takeWhile is_digit s"
  by (induction s) (auto simp: value_end_def is_digit_def split: list.splits)

lemma dropWhile_digit_ext:
  "value_end r \<Longrightarrow> dropWhile is_digit (s @ r) = dropWhile is_digit s @ r"
  by (induction s) (auto simp: value_end_def is_digit_def split: list.splits)

lemma parse_digits_ext:
  "parse_digits s = Some (ds, t) \<Longrightarrow> value_end r \<Longrightarrow> parse_digits (s @ r) = Some (ds, t @ r)"
  by (auto simp: parse_digits_def takeWhile_digit_ext dropWhile_digit_ext split: if_splits)

lemma parse_int_part_ext:
  "parse_int_part s = Some (ip, t) \<Longrightarrow> value_end r \<Longrightarrow> parse_int_part (s @ r) = Some (ip, t @ r)"
  using parse_digits_ext [of s ip t r]
  by (cases s) (auto simp: parse_int_part_def split: if_splits)

lemma parse_frac_ext:
  "parse_frac s = Some (fp, t) \<Longrightarrow> value_end r \<Longrightarrow> parse_frac (s @ r) = Some (fp, t @ r)"
proof (cases s)
  case Nil
  assume "parse_frac s = Some (fp, t)" "value_end r"
  with Nil show ?thesis
    by (cases r) (auto simp: parse_frac_def value_end_def)
next
  case (Cons c s')
  assume "parse_frac s = Some (fp, t)" "value_end r"
  with Cons show ?thesis
    by (auto simp: parse_frac_def dest: parse_digits_ext split: if_splits)
qed

lemma parse_exp_ext:
  "parse_exp s = Some (ep, t) \<Longrightarrow> value_end r \<Longrightarrow> parse_exp (s @ r) = Some (ep, t @ r)"
proof (cases s)
  case Nil
  assume "parse_exp s = Some (ep, t)" "value_end r"
  with Nil show ?thesis
    by (cases r) (auto simp: parse_exp_def value_end_def)
next
  case (Cons c s')
  assume "parse_exp s = Some (ep, t)" "value_end r"
  with Cons show ?thesis
    by (auto simp: parse_exp_def dest: parse_digits_ext split: if_splits list.splits)
qed

lemma parse_number_ext:
  assumes "parse_number s = Some (l, t)" and "value_end r"
  shows "parse_number (s @ r) = Some (l, t @ r)"
proof -
  have ne: "s \<noteq> []"
    using assms(1) by (auto simp: parse_number_def parse_int_part_def)
  then obtain c s' where s: "s = c # s'" by (cases s) auto
  let ?sign = "if startsWith s ''-'' then ''-'' else ''''"
  have sg: "(if startsWith (s @ r) ''-'' then ''-'' else '''') = ?sign"
    using s by simp
  have dr: "drop (length ?sign) (s @ r) = drop (length ?sign) s @ r"
    using s by simp
  from assms(1) obtain ip s1 fp s2 ep where
    i: "parse_int_part (drop (length ?sign) s) = Some (ip, s1)" and
    f: "parse_frac s1 = Some (fp, s2)" and
    e: "parse_exp s2 = Some (ep, t)" and
    l: "l = ?sign @ ip @ fp @ ep"
    by (auto simp: parse_number_def Let_def split: option.splits)
  show ?thesis
    unfolding parse_number_def Let_def sg dr
    using parse_int_part_ext [OF i assms(2)] parse_frac_ext [OF f assms(2)]
      parse_exp_ext [OF e assms(2)] l
    by simp
qed

lemma parse_number_start:
  "parse_number s = Some x \<Longrightarrow> \<exists>c s'. s = c # s' \<and> (c = CHR ''-'' \<or> is_digit c)"
  by (cases s)
    (auto simp: parse_number_def parse_int_part_def parse_digits_def is_digit_def Let_def
      split: option.splits if_splits list.splits)

lemma parse_digits_last:
  "parse_digits s = Some (ds, t) \<Longrightarrow> ds \<noteq> [] \<and> is_digit (last ds)"
proof -
  assume a: "parse_digits s = Some (ds, t)"
  then have ds: "ds = takeWhile is_digit s" and ne: "ds \<noteq> []"
    by (auto simp: parse_digits_def split: if_splits)
  have "last ds \<in> set (takeWhile is_digit s)"
    using ds ne last_in_set by auto
  then have "is_digit (last ds)"
    by (rule set_takeWhileD [THEN conjunct2])
  with ne show ?thesis by simp
qed

lemma parse_int_part_last:
  "parse_int_part s = Some (ip, t) \<Longrightarrow> ip \<noteq> [] \<and> is_digit (last ip)"
  using parse_digits_last [of s ip t]
  by (cases s) (auto simp: parse_int_part_def is_digit_def split: if_splits)

lemma parse_frac_last:
  "parse_frac s = Some (fp, t) \<Longrightarrow> fp = [] \<or> is_digit (last fp)"
  by (cases s) (auto simp: parse_frac_def dest: parse_digits_last split: if_splits)

lemma parse_exp_last:
  "parse_exp s = Some (ep, t) \<Longrightarrow> ep = [] \<or> is_digit (last ep)"
  by (cases s) (auto simp: parse_exp_def dest: parse_digits_last split: if_splits list.splits)

lemma parse_number_last:
  assumes "parse_number s = Some (l, t)"
  shows "l \<noteq> [] \<and> is_digit (last l)"
proof -
  let ?sign = "if startsWith s ''-'' then ''-'' else ''''"
  from assms obtain ip s1 fp s2 ep where
    i: "parse_int_part (drop (length ?sign) s) = Some (ip, s1)" and
    f: "parse_frac s1 = Some (fp, s2)" and
    e: "parse_exp s2 = Some (ep, t)" and
    l: "l = ?sign @ ip @ fp @ ep"
    by (auto simp: parse_number_def Let_def split: option.splits)
  from parse_int_part_last [OF i] parse_frac_last [OF f] parse_exp_last [OF e] l
  show ?thesis
    by (cases "ep = []"; cases "fp = []") auto
qed

lemma value_start_facts:
  "value_start c \<Longrightarrow> \<not> is_json_ws c \<and> \<not> is_js_space c \<and> c \<noteq> CHR '']'' \<and> c \<noteq> CHR ''}''"
  by (auto simp: value_start_def is_json_ws_def is_js_space_def)

lemma digit_value_start: "is_digit c \<Longrightarrow> value_start c"
  unfolding is_digit_def value_start_def by auto

lemma digit_not_space: "is_digit c \<Longrightarrow> \<not> is_js_space c"
  unfolding is_digit_def is_js_space_def by auto

lemma serialize_start:
  "valid_json D \<Longrightarrow> \<exists>c cs. serialize D = c # cs \<and> value_start c"
proof (cases D)
  case JNull
  then show ?thesis by (simp add: value_start_def)
next
  case (JBool b)
  then show ?thesis by (simp add: value_start_def)
next
  case (JNumber l)
  assume "valid_json D"
  with JNumber have "parse_number l = Some (l, [])" by simp
  from parse_number_start [OF this] obtain c s' where "l = c # s'" "c = CHR ''-'' \<or> is_digit c"
    by blast
  moreover have "value_start (CHR ''-'')" by (simp add: value_start_def)
  ultimately show ?thesis
    using JNumber digit_value_start by auto
next
  case (JString b)
  then show ?thesis by (simp add: value_start_def)
next
  case (JArray vs)
  then show ?thesis by (simp add: value_start_def)
next
  case (JObject ms)
  then show ?thesis by (simp add: value_start_def)
qed

lemma serialize_last:
  "valid_json D \<Longrightarrow> \<not> is_js_space (last (serialize D))"
proof (cases D)
  case JNull
  then show ?thesis by (simp add: is_js_space_def)
next
  case (JBool b)
  then show ?thesis by (simp add: is_js_space_def)
next
  case (JNumber l)
  assume "valid_json D"
  with JNumber have "parse_number l = Some (l, [])" by simp
  from parse_number_last [OF this] show ?thesis
    using JNumber digit_not_space by simp
next
  case (JString b)
  then show ?thesis by (simp add: is_js_space_def)
next
  case (JArray vs)
  then show ?thesis by (simp add: is_js_space_def)
next
  case (JObject ms)
  then show ?thesis by (simp add: is_js_space_def)
qed

lemma skip_ws_start: "value_start c \<Longrightarrow> skip_ws (c # s) = c # s"
  by (simp add: skip_ws_def value_start_facts)

lemma skip_ws_end: "value_end r \<Longrightarrow> skip_ws r = r"
  by (cases r) (auto simp: skip_ws_def value_end_def is_json_ws_def)

lemma join_comma_Cons:
  "xs \<noteq> [] \<Longrightarrow> join_comma (x # xs) = x @ '','' @ join_comma xs"
  by (cases xs) simp_all

lemma skip_ws_punct:
  "c = CHR '','' \<or> c = CHR '']'' \<or> c = CHR ''}'' \<or> c = CHR '':'' \<or> c = CHR 0x22
   \<Longrightarrow> skip_ws (c # r) = c # r"
  by (auto simp: skip_ws_def is_json_ws_def)

lemma number_start_facts:
  "c = CHR ''-'' \<or> is_digit c
   \<Longrightarrow> c \<noteq> CHR ''{'' \<and> c \<noteq> CHR ''['' \<and> c \<noteq> CHR 0x22 \<and> c \<noteq> CHR ''t'' \<and> c \<noteq> CHR ''f''
       \<and> c \<noteq> CHR ''n'' \<and> \<not> is_json_ws c"
  unfolding is_digit_def is_json_ws_def by auto

lemma elements_start:
  assumes "vs \<noteq> []" and "list_all valid_json vs"
  shows "\<exists>c cs. join_comma (map serialize vs) = c # cs \<and> value_start c"
proof -
  obtain v vs' where vs: "vs = v # vs'" using assms(1) by (cases vs) auto
  with assms(2) have "valid_json v" by simp
  from serialize_start [OF this] obtain c cs where "serialize v = c # cs" "value_start c"
    by blast
  then show ?thesis
    using vs by (cases vs') auto
qed

lemma parse_elements_serialize:
  assumes "vs \<noteq> []"
    and "\<And>v m t. v \<in> set vs \<Longrightarrow> 2 * length (serialize v) + 1 \<le> m \<Longrightarrow> value_end t
           \<Longrightarrow> parse_value m (serialize v @ t) = Some (v, t)"
    and "2 * length (join_comma (map serialize vs)) + 2 \<le> n"
  shows "parse_elements n (join_comma (map serialize vs) @ CHR '']'' # r) = Some (vs, r)"
  using assms
proof (induction vs arbitrary: n rule: list_nonempty_induct)
  case (single v)
  obtain k where n: "n = Suc k" using single.prems(2) by (cases n) auto
  have "parse_value k (serialize v @ CHR '']'' # r) = Some (v, CHR '']'' # r)"
    using single.prems n by (intro single.prems(1)) (auto simp: value_end_def)
  then show ?case
    by (simp add: n skip_ws_punct)
next
  case (cons v vs)
  obtain k where n: "n = Suc k" using cons.prems(2) by (cases n) auto
  have j: "join_comma (serialize v # map serialize vs)
           = serialize v @ CHR '','' # join_comma (map serialize vs)"
    using cons.hyps by (simp add: join_comma_Cons)
  have "parse_value k (serialize v @ CHR '','' # join_comma (map serialize vs) @ CHR '']'' # r)
        = Some (v, CHR '','' # join_comma (map serialize vs) @ CHR '']'' # r)"
    using cons.prems(2) n j by (intro cons.prems(1)) (auto simp: value_end_def)
  moreover have "parse_elements k (join_comma (map serialize vs) @ CHR '']'' # r) = Some (vs, r)"
    using cons.prems n j by (intro cons.IH) auto
  ultimately show ?case
    by (simp add: n j skip_ws_punct)
qed

lemma members_start:
  assumes "ms \<noteq> []"
  shows "\<exists>cs. join_comma (map (\<lambda>(k, v). CHR 0x22 # k @ CHR 0x22 # CHR '':'' # serialize v) ms)
              = CHR 0x22 # cs"
proof -
  obtain k v ms' where "ms = (k, v) # ms'" using assms by (cases ms) auto
  then show ?thesis by (cases ms') auto
qed

lemma parse_members_serialize:
  assumes "ms \<noteq> []"
    and "\<And>k v m t. (k, v) \<in> set ms \<Longrightarrow> 2 * length (serialize v) + 1 \<le> m \<Longrightarrow> value_end t
           \<Longrightarrow> parse_value m (serialize v @ t) = Some (v, t)"
    and "\<And>k v. (k, v) \<in> set ms \<Longrightarrow> parse_string (k @ [CHR 0x22]) = Some (k, [])"
    and "2 * length (join_comma (map (\<lambda>(k, v). CHR 0x22 # k @ CHR 0x22 # CHR '':'' # serialize v) ms))
           + 1 \<le> n"
  shows "parse_members n
           (join_comma (map (\<lambda>(k, v). CHR 0x22 # k @ CHR 0x22 # CHR '':'' # serialize v) ms)
              @ CHR ''}'' # r)
         = Some (ms, r)"
  using assms
proof (induction ms arbitrary: n rule: list_nonempty_induct)
  case (single x)
  obtain k v where x: "x = (k, v)" by (cases x)
  obtain m where n: "n = Suc m" using single.prems(3) by (cases n) auto
  have key: "parse_string (k @ CHR 0x22 # CHR '':'' # serialize v @ CHR ''}'' # r)
             = Some (k, CHR '':'' # serialize v @ CHR ''}'' # r)"
    using parse_string_ext [OF single.prems(2) [of k v], of "CHR '':'' # serialize v @ CHR ''}'' # r"] x
    by simp
  have val: "parse_value m (serialize v @ CHR ''}'' # r) = Some (v, CHR ''}'' # r)"
    using single.prems(3) n x by (intro single.prems(1)) (auto simp: value_end_def)
  show ?case
    by (simp add: n x skip_ws_punct key val)
next
  case (cons x ms)
  obtain k v where x: "x = (k, v)" by (cases x)
  obtain m where n: "n = Suc m" using cons.prems(3) by (cases n) auto
  let ?M = "join_comma (map (\<lambda>(k, v). CHR 0x22 # k @ CHR 0x22 # CHR '':'' # serialize v) ms)"
  have j: "join_comma ((CHR 0x22 # k @ CHR 0x22 # CHR '':'' # serialize v)
             # map (\<lambda>(k, v). CHR 0x22 # k @ CHR 0x22 # CHR '':'' # serialize v) ms)
           = CHR 0x22 # k @ CHR 0x22 # CHR '':'' # serialize v @ CHR '','' # ?M"
    using cons.hyps by (simp add: join_comma_Cons)
  have key: "parse_string (k @ CHR 0x22 # CHR '':'' # serialize v @ CHR '','' # ?M @ CHR ''}'' # r)
             = Some (k, CHR '':'' # serialize v @ CHR '','' # ?M @ CHR ''}'' # r)"
    using parse_string_ext [OF cons.prems(2) [of k v],
        of "CHR '':'' # serialize v @ CHR '','' # ?M @ CHR ''}'' # r"] x
    by simp
  have val: "parse_value m (serialize v @ CHR '','' # ?M @ CHR ''}'' # r)
             = Some (v, CHR '','' # ?M @ CHR ''}'' # r)"
    using cons.prems(3) n x j by (intro cons.prems(1)) (auto simp: value_end_def)
  have rest: "parse_members m (?M @ CHR ''}'' # r) = Some (ms, r)"
  proof (rule cons.IH)
    fix k' v' m' t
    assume "(k', v') \<in> set ms" "2 * length (serialize v') + 1 \<le> m'" "value_end t"
    then show "parse_value m' (serialize v' @ t) = Some (v', t)"
      by (intro cons.prems(1)) auto
  next
    fix k' v'
    assume "(k', v') \<in> set ms"
    then show "parse_string (k' @ [CHR 0x22]) = Some (k', [])"
      by (intro cons.prems(2) [of k' v']) auto
  next
    show "2 * length ?M + 1 \<le> m"
      using cons.prems(3) n j x by simp
  qed
  show ?case
    by (simp add: n j skip_ws_punct key val rest x)
qed

lemma parse_value_serialize:
  "valid_json D \<Longrightarrow> 2 * length (serialize D) + 1 \<le> n \<Longrightarrow> value_end r
   \<Longrightarrow> parse_value n (serialize D @ r) = Some (D, r)"
proof (induction D arbitrary: n r)
  case JNull
  then obtain k where "n = Suc k" by (cases n) auto
  then show ?case by (simp add: skip_ws_def is_json_ws_def)
next
  case (JBool b)
  then obtain k where "n = Suc k" by (cases n) auto
  then show ?case by (simp add: skip_ws_def is_json_ws_def)
next
  case (JNumber l)
  then obtain k where n: "n = Suc k" by (cases n) auto
  from JNumber.prems(1) have p: "parse_number l = Some (l, [])" by simp
  from parse_number_start [OF p] obtain c s' where l: "l = c # s'" and c: "c = CHR ''-'' \<or> is_digit c"
    by blast
  have "parse_number (c # s' @ r) = Some (l, r)"
    using parse_number_ext [OF p JNumber.prems(3)] l by simp
  then show ?case
    using number_start_facts [OF c] by (simp add: n l skip_ws_def)
next
  case (JString b)
  then obtain k where n: "n = Suc k" by (cases n) auto
  from JString.prems(1) have "parse_string (b @ [CHR 0x22]) = Some (b, [])" by simp
  from parse_string_ext [OF this, of r] show ?case
    by (simp add: n skip_ws_punct)
next
  case (JArray vs)
  then obtain k where n: "n = Suc k" by (cases n) auto
  show ?case
  proof (cases "vs = []")
    case True
    then show ?thesis by (simp add: n skip_ws_def is_json_ws_def)
  next
    case False
    from JArray.prems(1) have valid: "list_all valid_json vs" by simp
    from elements_start [OF False valid] obtain c cs
      where st: "join_comma (map serialize vs) = c # cs" and c: "value_start c"
      by blast
    have elems: "parse_elements k (join_comma (map serialize vs) @ CHR '']'' # r) = Some (vs, r)"
    proof (rule parse_elements_serialize [OF False])
      fix v m t
      assume "v \<in> set vs" "2 * length (serialize v) + 1 \<le> m" "value_end t"
      then show "parse_value m (serialize v @ t) = Some (v, t)"
        using valid by (intro JArray.IH) (auto simp: list_all_iff)
    next
      show "2 * length (join_comma (map serialize vs)) + 2 \<le> k"
        using JArray.prems(2) n by simp
    qed
    have open_ws: "skip_ws (CHR ''['' # join_comma (map serialize vs) @ CHR '']'' # r)
                   = CHR ''['' # join_comma (map serialize vs) @ CHR '']'' # r"
      by (simp add: skip_ws_def is_json_ws_def)
    have not_empty: "\<not> startsWith (skip_ws (join_comma (map serialize vs) @ CHR '']'' # r)) '']''"
      using st c value_start_facts [OF c] by (simp add: skip_ws_start)
    show ?thesis
      using elems not_empty by (simp add: n open_ws)
  qed
next
  case (JObject ms)
  then obtain k where n: "n = Suc k" by (cases n) auto
  let ?M = "join_comma (map (\<lambda>(k, v). CHR 0x22 # k @ CHR 0x22 # CHR '':'' # serialize v) ms)"
  show ?case
  proof (cases "ms = []")
    case True
    then show ?thesis by (simp add: n skip_ws_def is_json_ws_def)
  next
    case False
    from JObject.prems(1)
    have valid: "list_all (\<lambda>(k, v). parse_string (k @ [CHR 0x22]) = Some (k, []) \<and> valid_json v) ms"
      by simp
    from members_start [OF False] obtain cs where st: "?M = CHR 0x22 # cs"
      by blast
    have membs: "parse_members k (?M @ CHR ''}'' # r) = Some (ms, r)"
    proof (rule parse_members_serialize [OF False])
      fix k' v m t
      assume "(k', v) \<in> set ms" "2 * length (serialize v) + 1 \<le> m" "value_end t"
      then show "parse_value m (serialize v @ t) = Some (v, t)"
        using valid by (intro JObject.IH [of "(k', v)"]) (auto simp: list_all_iff)
    next
      fix k' v
      assume "(k', v) \<in> set ms"
      then show "parse_string (k' @ [CHR 0x22]) = Some (k', [])"
        using valid by (auto simp: list_all_iff)
    next
      show "2 * length ?M + 1 \<le> k"
        using JObject.prems(2) n by simp
    qed
    have open_ws: "skip_ws (CHR ''{'' # ?M @ CHR ''}'' # r) = CHR ''{'' # ?M @ CHR ''}'' # r"
      by (simp add: skip_ws_def is_json_ws_def)
    have not_empty: "\<not> startsWith (skip_ws (?M @ CHR ''}'' # r)) ''}''"
      using st by (simp add: skip_ws_punct)
    show ?thesis
      using membs not_empty by (simp add: n open_ws)
  qed
qed

lemma JSON_parse_serialize: "valid_json D \<Longrightarrow> JSON_parse (serialize D) = Some D"
  using parse_value_serialize [of D "2 * length (serialize D) + 1" "[]"]
  by (simp add: JSON_parse_def value_end_def skip_ws_def)

subsection \<open>A proper prefix of a serialized object does not parse\<close>

text \<open>
  What a parser has read, it reads again when more text follows, but for a number at the
  very end of the text, which the text that follows may extend. So an object, closed by
  its brace, is not the parse of a proper prefix of its own serialization.
\<close>

lemma skip_ws_append:
  "skip_ws x = c # t \<Longrightarrow> skip_ws (x @ b) = c # t @ b"
  unfolding skip_ws_def
  by (induction x) (auto split: if_splits)

lemma startsWith_append: "startsWith s p \<Longrightarrow> startsWith (s @ b) p"
  by (induction s p rule: startsWith.induct) simp_all

lemma startsWith_length: "startsWith s p \<Longrightarrow> length p \<le> length s"
  by (induction s p rule: startsWith.induct) simp_all

lemma takeWhile_digit_more:
  "dropWhile is_digit s \<noteq> [] \<Longrightarrow> takeWhile is_digit (s @ b) = takeWhile is_digit s"
  by (induction s) auto

lemma dropWhile_digit_more:
  "dropWhile is_digit s \<noteq> [] \<Longrightarrow> dropWhile is_digit (s @ b) = dropWhile is_digit s @ b"
  by (induction s) auto

lemma parse_digits_more:
  "parse_digits s = Some (ds, t) \<Longrightarrow> t \<noteq> [] \<Longrightarrow> parse_digits (s @ b) = Some (ds, t @ b)"
  by (auto simp: parse_digits_def takeWhile_digit_more dropWhile_digit_more split: if_splits)

lemma parse_int_part_more:
  "parse_int_part s = Some (ip, t) \<Longrightarrow> t \<noteq> [] \<Longrightarrow> parse_int_part (s @ b) = Some (ip, t @ b)"
  using parse_digits_more [of s ip t b]
  by (cases s) (auto simp: parse_int_part_def split: if_splits)

lemma parse_frac_more:
  "parse_frac s = Some (fp, t) \<Longrightarrow> t \<noteq> [] \<Longrightarrow> parse_frac (s @ b) = Some (fp, t @ b)"
proof (cases s)
  case Nil
  assume "parse_frac s = Some (fp, t)" "t \<noteq> []"
  with Nil show ?thesis by (simp add: parse_frac_def)
next
  case (Cons c r)
  assume a: "parse_frac s = Some (fp, t)" "t \<noteq> []"
  show ?thesis
  proof (cases "c = CHR ''.''")
    case True
    with a Cons obtain ds where "parse_digits r = Some (ds, t)" "fp = c # ds"
      by (auto simp: parse_frac_def)
    with parse_digits_more [OF this(1) a(2), of b] True Cons show ?thesis
      by (simp add: parse_frac_def)
  next
    case False
    with a Cons show ?thesis by (auto simp: parse_frac_def)
  qed
qed

lemma parse_exp_more:
  "parse_exp s = Some (ep, t) \<Longrightarrow> t \<noteq> [] \<Longrightarrow> parse_exp (s @ b) = Some (ep, t @ b)"
proof (cases s)
  case Nil
  assume "parse_exp s = Some (ep, t)" "t \<noteq> []"
  with Nil show ?thesis by (simp add: parse_exp_def)
next
  case (Cons c r)
  assume a: "parse_exp s = Some (ep, t)" "t \<noteq> []"
  show ?thesis
  proof (cases "c = CHR ''e'' \<or> c = CHR ''E''")
    case False
    with a Cons show ?thesis by (auto simp: parse_exp_def)
  next
    case True
    with a Cons obtain g r' where r: "r = g # r'"
      by (cases r) (auto simp: parse_exp_def)
    show ?thesis
    proof (cases "g = CHR ''+'' \<or> g = CHR ''-''")
      case sign: True
      with a Cons True r obtain ds where "parse_digits r' = Some (ds, t)" "ep = c # g # ds"
        by (auto simp: parse_exp_def)
      with parse_digits_more [OF this(1) a(2), of b] True Cons r sign show ?thesis
        by (auto simp: parse_exp_def)
    next
      case nosign: False
      with a Cons True r obtain ds where "parse_digits (g # r') = Some (ds, t)" "ep = c # ds"
        by (auto simp: parse_exp_def)
      with parse_digits_more [OF this(1) a(2), of b] True Cons r nosign show ?thesis
        by (auto simp: parse_exp_def)
    qed
  qed
qed

lemma parse_number_more:
  assumes "parse_number s = Some (l, t)" and "t \<noteq> []"
  shows "parse_number (s @ b) = Some (l, t @ b)"
proof -
  let ?sign = "if startsWith s ''-'' then ''-'' else ''''"
  from assms obtain ip s1 fp s2 ep where
    i: "parse_int_part (drop (length ?sign) s) = Some (ip, s1)" and
    f: "parse_frac s1 = Some (fp, s2)" and
    e: "parse_exp s2 = Some (ep, t)" and
    l: "l = ?sign @ ip @ fp @ ep"
    by (auto simp: parse_number_def Let_def split: option.splits)
  from parse_exp_split [OF e] assms(2) have s2: "s2 \<noteq> []"
    by auto
  from parse_frac_split [OF f] s2 have s1: "s1 \<noteq> []"
    by auto
  from parse_number_start [OF assms(1)] obtain c s' where s: "s = c # s'"
    by blast
  have sign: "startsWith (s @ b) ''-'' = startsWith s ''-''"
    using s by simp
  have rest: "drop (length ?sign) (s @ b) = drop (length ?sign) s @ b"
    using s by simp
  have "parse_int_part (drop (length ?sign) s @ b) = Some (ip, s1 @ b)"
    by (rule parse_int_part_more [OF i s1])
  moreover have "parse_frac (s1 @ b) = Some (fp, s2 @ b)"
    by (rule parse_frac_more [OF f s2])
  moreover have "parse_exp (s2 @ b) = Some (ep, t @ b)"
    by (rule parse_exp_more [OF e assms(2)])
  ultimately show ?thesis
    unfolding parse_number_def Let_def sign rest
    using l by simp
qed

lemma parse_value_input: "parse_value n s = Some x \<Longrightarrow> skip_ws s \<noteq> []"
  by (cases n) auto

lemma parse_elements_input: "parse_elements n s = Some x \<Longrightarrow> skip_ws s \<noteq> []"
  by (cases n) (auto dest: parse_value_input split: option.splits)

lemma parse_members_input: "parse_members n s = Some x \<Longrightarrow> skip_ws s \<noteq> []"
  by (cases n) auto

lemma not_closed_append:
  assumes "skip_ws t \<noteq> []" and "\<not> startsWith (skip_ws t) [p]"
  shows "\<not> startsWith (skip_ws (t @ b)) [p]"
proof -
  from assms(1) obtain d u where d: "skip_ws t = d # u"
    by (cases "skip_ws t") auto
  with assms(2) skip_ws_append [OF d, of b] show ?thesis
    by simp
qed

lemma closed_append:
  assumes "startsWith (skip_ws t) [p]"
  shows "startsWith (skip_ws (t @ b)) [p] \<and> tl (skip_ws (t @ b)) = tl (skip_ws t) @ b"
proof -
  from assms obtain d u where d: "skip_ws t = d # u"
    by (cases "skip_ws t") auto
  with assms skip_ws_append [OF d, of b] show ?thesis
    by simp
qed

lemma parse_more:
  "parse_value n s = Some (v, r) \<Longrightarrow> r \<noteq> [] \<or> (\<forall>l. v \<noteq> JNumber l)
   \<Longrightarrow> parse_value n (s @ b) = Some (v, r @ b)"
  "parse_elements n s = Some (vs, r) \<Longrightarrow> parse_elements n (s @ b) = Some (vs, r @ b)"
  "parse_members n s = Some (ms, r) \<Longrightarrow> parse_members n (s @ b) = Some (ms, r @ b)"
proof (induction n s and n s and n s arbitrary: v r and vs r and ms r
    rule: parse_value_parse_elements_parse_members.induct)
  case (1 s)
  then show ?case by simp
next
  case (2 n s)
  obtain c t where sk: "skip_ws s = c # t"
    using "2.prems"(1) by (cases "skip_ws s") auto
  have sk': "skip_ws (s @ b) = c # t @ b"
    by (rule skip_ws_append [OF sk])
  consider (obj) "c = CHR ''{''" | (arr) "c \<noteq> CHR ''{''" "c = CHR ''[''"
    | (str) "c \<noteq> CHR ''{''" "c \<noteq> CHR ''[''" "c = CHR 0x22"
    | (other) "c \<noteq> CHR ''{''" "c \<noteq> CHR ''[''" "c \<noteq> CHR 0x22"
    by blast
  then show ?case
  proof cases
    case obj
    show ?thesis
    proof (cases "startsWith (skip_ws t) ''}''")
      case True
      with "2.prems"(1) sk obj have "v = JObject []" "r = tl (skip_ws t)"
        by auto
      with closed_append [OF True, of b] sk' obj show ?thesis
        by simp
    next
      case False
      with "2.prems"(1) sk obj obtain ms where pm: "parse_members n t = Some (ms, r)"
        and v: "v = JObject ms"
        by auto
      have "\<not> startsWith (skip_ws (t @ b)) ''}''"
        by (rule not_closed_append [OF parse_members_input [OF pm] False])
      with "2.IH"(1) [OF sk obj False pm] sk' obj v show ?thesis
        by simp
    qed
  next
    case arr
    show ?thesis
    proof (cases "startsWith (skip_ws t) '']''")
      case True
      with "2.prems"(1) sk arr have "v = JArray []" "r = tl (skip_ws t)"
        by auto
      with closed_append [OF True, of b] sk' arr show ?thesis
        by simp
    next
      case False
      with "2.prems"(1) sk arr obtain vs where pe: "parse_elements n t = Some (vs, r)"
        and v: "v = JArray vs"
        by auto
      have "\<not> startsWith (skip_ws (t @ b)) '']''"
        by (rule not_closed_append [OF parse_elements_input [OF pe] False])
      with "2.IH"(2) [OF sk arr False pe] sk' arr v show ?thesis
        by simp
    qed
  next
    case str
    with "2.prems"(1) sk obtain bd where ps: "parse_string t = Some (bd, r)" and v: "v = JString bd"
      by auto
    from parse_string_ext [OF ps, of b] sk' str v show ?thesis
      by simp
  next
    case other
    consider (kw_true) "startsWith (c # t) ''true''"
      | (kw_false) "startsWith (c # t) ''false''"
      | (kw_null) "startsWith (c # t) ''null''"
      | (num) "\<not> startsWith (c # t) ''true''" "\<not> startsWith (c # t) ''false''"
          "\<not> startsWith (c # t) ''null''"
      by blast
    then show ?thesis
    proof cases
      case kw_true
      with "2.prems"(1) sk other have "v = JBool True" "r = drop 4 (c # t)"
        by auto
      with startsWith_append [OF kw_true, of b] startsWith_length [OF kw_true] sk' other
      show ?thesis
        by simp
    next
      case kw_false
      then have c: "c = CHR ''f''"
        by simp
      with "2.prems"(1) sk other kw_false have "v = JBool False" "r = drop 5 (c # t)"
        by auto
      with startsWith_append [OF kw_false, of b] startsWith_length [OF kw_false] sk' other c
      show ?thesis
        by simp
    next
      case kw_null
      then have c: "c = CHR ''n''"
        by simp
      with "2.prems"(1) sk other kw_null have "v = JNull" "r = drop 4 (c # t)"
        by auto
      with startsWith_append [OF kw_null, of b] startsWith_length [OF kw_null] sk' other c
      show ?thesis
        by simp
    next
      case num
      with "2.prems"(1) sk other obtain l where pn: "parse_number (c # t) = Some (l, r)"
        and v: "v = JNumber l"
        by auto
      with "2.prems"(2) have r: "r \<noteq> []"
        by simp
      from parse_number_start [OF pn] have c: "c = CHR ''-'' \<or> is_digit c"
        by simp
      then have kw: "c \<noteq> CHR ''t''" "c \<noteq> CHR ''f''" "c \<noteq> CHR ''n''"
        by (auto simp: is_digit_def)
      from parse_number_more [OF pn r, of b] have "parse_number (c # t @ b) = Some (l, r @ b)"
        by simp
      with sk' other kw v show ?thesis
        by simp
    qed
  qed
next
  case (3 s)
  then show ?case by simp
next
  case (4 n s)
  from "4.prems" obtain v t where pv: "parse_value n s = Some (v, t)"
    by (auto split: option.splits)
  obtain c t' where sk: "skip_ws t = c # t'"
    using "4.prems" pv by (cases "skip_ws t") auto
  then have t: "t \<noteq> []"
    by (auto simp: skip_ws_def)
  have pv': "parse_value n (s @ b) = Some (v, t @ b)"
    using "4.IH"(1) [OF pv] t by simp
  have sk': "skip_ws (t @ b) = c # t' @ b"
    by (rule skip_ws_append [OF sk])
  show ?case
  proof (cases "c = CHR '',''")
    case True
    with "4.prems" pv sk obtain vs' where pe: "parse_elements n t' = Some (vs', r)"
      and vs: "vs = v # vs'"
      by auto
    from "4.IH"(2) [OF pv refl sk True pe] pv' sk' True vs show ?thesis
      by simp
  next
    case False
    with "4.prems" pv sk pv' sk' show ?thesis
      by (auto split: if_splits)
  qed
next
  case (5 s)
  then show ?case by simp
next
  case (6 n s)
  obtain q t where sk: "skip_ws s = q # t"
    using "6.prems" by (cases "skip_ws s") auto
  have sk': "skip_ws (s @ b) = q # t @ b"
    by (rule skip_ws_append [OF sk])
  have q: "q = CHR 0x22"
    using "6.prems" sk by (auto split: if_splits)
  from "6.prems" sk q obtain k r1 where ps: "parse_string t = Some (k, r1)"
    by (auto split: option.splits)
  have ps': "parse_string (t @ b) = Some (k, r1 @ b)"
    by (rule parse_string_ext [OF ps])
  obtain c r2 where sk1: "skip_ws r1 = c # r2"
    using "6.prems" sk q ps by (cases "skip_ws r1") auto
  have sk1': "skip_ws (r1 @ b) = c # r2 @ b"
    by (rule skip_ws_append [OF sk1])
  have c: "c = CHR '':''"
    using "6.prems" sk q ps sk1 by (auto split: if_splits)
  from "6.prems" sk q ps sk1 c obtain v r3 where pv: "parse_value n r2 = Some (v, r3)"
    by (auto split: option.splits)
  obtain d r4 where sk3: "skip_ws r3 = d # r4"
    using "6.prems" sk q ps sk1 c pv by (cases "skip_ws r3") auto
  then have r3: "r3 \<noteq> []"
    by (auto simp: skip_ws_def)
  have pv': "parse_value n (r2 @ b) = Some (v, r3 @ b)"
    using "6.IH"(1) [OF sk q ps refl sk1 c pv] r3 by simp
  have sk3': "skip_ws (r3 @ b) = d # r4 @ b"
    by (rule skip_ws_append [OF sk3])
  show ?case
  proof (cases "d = CHR '',''")
    case True
    with "6.prems" sk q ps sk1 c pv sk3 obtain ms' where pm: "parse_members n r4 = Some (ms', r)"
      and ms: "ms = (k, v) # ms'"
      by auto
    from "6.IH"(2) [OF sk q ps refl sk1 c pv refl sk3 True pm]
    have "parse_members n (r4 @ b) = Some (ms', r @ b)" .
    with sk' q ps' sk1' c pv' sk3' True ms show ?thesis
      by simp
  next
    case False
    with "6.prems" sk q ps sk1 c pv sk3 have "d = CHR ''}''" "ms = [(k, v)]" "r = r4"
      by (auto split: if_splits)
    with sk' q ps' sk1' c pv' sk3' False show ?thesis
      by simp
  qed
qed

lemma parse_value_brace:
  "parse_value n (CHR ''{'' # t) = Some (v, r) \<Longrightarrow> \<exists>ms. v = JObject ms"
  by (cases n) (auto simp: skip_ws_def is_json_ws_def split: if_splits)

lemma object_prefix_unparsable:
  assumes "valid_json (JObject ms)" and "serialize (JObject ms) = g @ b" and "b \<noteq> []"
  shows "JSON_parse g = None"
proof (rule ccontr)
  assume "JSON_parse g \<noteq> None"
  then obtain D' where p: "JSON_parse g = Some D'"
    by auto
  define n where "n = 2 * length (g @ b) + 1"
  have "2 * length g + 1 \<le> n"
    by (simp add: n_def)
  from JSON_parse_any_bound [OF this] p obtain r where
    pv: "parse_value n g = Some (D', r)"
    by (auto split: option.splits if_splits)
  have "g \<noteq> []"
    using p JSON_parse_empty by auto
  with assms(2) obtain g' where g: "g = CHR ''{'' # g'"
    by (cases g) auto
  from parse_value_brace [OF pv [unfolded g]] have "\<forall>l. D' \<noteq> JNumber l"
    by auto
  with parse_more(1) [OF pv, of b] have "parse_value n (g @ b) = Some (D', r @ b)"
    by simp
  moreover have "parse_value n (serialize (JObject ms) @ []) = Some (JObject ms, [])"
    using assms(1,2) by (intro parse_value_serialize) (simp_all add: n_def value_end_def)
  ultimately show False
    using assms(2,3) by simp
qed

subsection \<open>The round trip of the extractor\<close>

lemma digit_not_tick: "is_digit c \<Longrightarrow> c \<noteq> CHR 0x60"
  unfolding is_digit_def by auto

lemma serialize_last_tick:
  "valid_json D \<Longrightarrow> last (serialize D) \<noteq> CHR 0x60"
proof (cases D)
  case JNull
  then show ?thesis by simp
next
  case (JBool b)
  then show ?thesis by simp
next
  case (JNumber l)
  assume "valid_json D"
  with JNumber have "parse_number l = Some (l, [])" by simp
  from parse_number_last [OF this] show ?thesis
    using JNumber digit_not_tick by simp
next
  case (JString b)
  then show ?thesis by simp
next
  case (JArray vs)
  then show ?thesis by simp
next
  case (JObject ms)
  then show ?thesis by simp
qed

text \<open>
  A serialized object in a fenced block, whatever backticks it has in its strings: when
  the lazy group stops inside the object, its interior does not parse, and the text
  between the braces is the object.
\<close>

lemma fenced_object:
  assumes "valid_json (JObject ms)"
    and "\<not> includes_str pre fence" and "pre = [] \<or> last pre \<noteq> CHR 0x60"
    and "tag = [] \<or> tag = ''json''"
    and "\<forall>c\<in>set ws1. is_js_space c" and "\<forall>c\<in>set ws2. is_js_space c"
    and "CHR ''{'' \<notin> set pre" and "CHR ''}'' \<notin> set rest"
    and "pre = []
         \<or> JSON_parse (pre @ fence @ tag @ ws1 @ serialize (JObject ms) @ ws2 @ fence @ rest)
             \<in> {None, Some (JObject ms)}"
  shows "tryParseJSON (pre @ fence @ tag @ ws1 @ serialize (JObject ms) @ ws2 @ fence @ rest)
         = Inr (JObject ms)"
proof -
  define s where "s = serialize (JObject ms)"
  have p: "JSON_parse s = Some (JObject ms)"
    unfolding s_def using assms(1) by (rule JSON_parse_serialize)
  have ne: "s \<noteq> []" and hd: "hd s = CHR ''{''" and last: "last s = CHR ''}''"
    by (simp_all add: s_def)
  have start: "\<not> is_js_space (hd s)" "hd s \<noteq> CHR ''j''"
    by (simp_all add: hd is_js_space_def)
  let ?before = "pre @ fence @ tag @ ws1"
  let ?suf = "ws2 @ fence @ rest"
  have b1: "CHR ''{'' \<notin> set ?before"
  proof -
    have "CHR ''{'' \<notin> set ws1"
    proof
      assume "CHR ''{'' \<in> set ws1"
      with assms(5) have "is_js_space (CHR ''{'')"
        by (rule bspec)
      then show False
        by (simp add: is_js_space_def)
    qed
    moreover have "CHR ''{'' \<notin> set tag"
      using assms(4) by auto
    moreover have "CHR ''{'' \<notin> set fence"
      by (simp add: fence_def)
    ultimately show ?thesis
      using assms(7) by simp
  qed
  have b2: "CHR ''}'' \<notin> set ?suf"
  proof -
    have "CHR ''}'' \<notin> set ws2"
    proof
      assume "CHR ''}'' \<in> set ws2"
      with assms(6) have "is_js_space (CHR ''}'')"
        by (rule bspec)
      then show False
        by (simp add: is_js_space_def)
    qed
    moreover have "CHR ''}'' \<notin> set fence"
      by (simp add: fence_def)
    ultimately show ?thesis
      using assms(8) by simp
  qed
  have whole: "JSON_parse (?before @ s @ ?suf) \<in> {None, Some (JObject ms)}"
  proof (cases "pre = []")
    case True
    then have "JSON_parse (?before @ s @ ?suf) = None"
      by (simp add: fence_def JSON_parse_backtick)
    then show ?thesis
      by simp
  next
    case False
    have "JSON_parse (pre @ fence @ tag @ ws1 @ s @ ws2 @ fence @ rest)
            \<in> {None, Some (JObject ms)}"
      using assms(9) False unfolding s_def by (simp only: simp_thms)
    then show ?thesis
      by simp
  qed
  have inner: "\<forall>g. markdownMatch (?before @ s @ ?suf) = Some g
                 \<longrightarrow> JSON_parse g \<in> {None, Some (JObject ms)}"
  proof (intro allI impI)
    fix g
    assume m: "markdownMatch (?before @ s @ ?suf) = Some g"
    have "markdownMatch (pre @ fence @ tag @ ws1 @ s @ ?suf) = lazy_capture (s @ ?suf)"
      by (rule markdownMatch_opening [OF assms(2,3) ne start assms(4,5)])
    moreover have "dropWhile is_js_space ?suf = fence @ rest"
      using assms(6) by (simp add: dropWhile_append fence_def is_js_space_def)
    then have "closes_fence ?suf"
      by (simp add: closes_fence_def)
    from lazy_capture_prefix [OF this, of s] obtain k where
      k: "k \<le> length s" "lazy_capture (s @ ?suf) = Some (take k s)"
      by blast
    ultimately have g: "g = take k s"
      using m by simp
    show "JSON_parse g \<in> {None, Some (JObject ms)}"
    proof (cases "k = length s")
      case True
      with g p show ?thesis by simp
    next
      case False
      with k(1) have "drop k s \<noteq> []"
        by simp
      moreover have "serialize (JObject ms) = take k s @ drop k s"
        by (simp add: s_def)
      ultimately have "JSON_parse (take k s) = None"
        by (intro object_prefix_unparsable [OF assms(1)])
      with g show ?thesis by simp
    qed
  qed
  from hd last b1 b2 whole inner
  have "tryParseJSON (?before @ s @ ?suf) = Inr (JObject ms)"
    by (intro mp [OF conjunct2 [OF conjunct2 [OF extractor_on_parsable [OF p]]]] conjI)
  then show ?thesis
    by (simp add: s_def)
qed

text \<open>
  C8, as amended. For every valid document \<open>D\<close>, \<open>tryParseJSON\<close> maps \<open>serialize D\<close> to
  \<open>D\<close>. It also maps to \<open>D\<close> the text that wraps \<open>serialize D\<close> in a fenced block (three
  backticks, an optional \<open>json\<close>, white space, the document, white space, three
  backticks), after a prefix and before any suffix, when the three backticks that open
  the block are the leftmost of the text (the prefix has no three backticks in a row and
  does not end with a backtick), the whole is not itself another JSON document (which it
  never is with an empty prefix), and either the document has no three backticks in a
  row, or it is an object, with no opening brace in the prefix and no closing brace in
  the suffix. And when \<open>D\<close> is an object, it maps to \<open>D\<close> the text that surrounds
  \<open>serialize D\<close> with a prefix without opening brace and a suffix without closing brace,
  when neither the whole text nor the interior of a fenced block in it is another JSON
  document.
\<close>

theorem extractor_round_trip:
  assumes "valid_json D"
  shows "tryParseJSON (serialize D) = Inr D
    \<and> (\<not> includes_str pre fence \<and> (pre = [] \<or> last pre \<noteq> CHR 0x60)
         \<and> (tag = [] \<or> tag = ''json'')
         \<and> (\<forall>c\<in>set ws1. is_js_space c) \<and> (\<forall>c\<in>set ws2. is_js_space c)
         \<and> (pre = []
              \<or> JSON_parse (pre @ fence @ tag @ ws1 @ serialize D @ ws2 @ fence @ rest)
                  \<in> {None, Some D})
         \<and> (\<not> includes_str (serialize D) fence
              \<or> (\<exists>members. D = JObject members)
                 \<and> CHR ''{'' \<notin> set pre \<and> CHR ''}'' \<notin> set rest)
       \<longrightarrow> tryParseJSON (pre @ fence @ tag @ ws1 @ serialize D @ ws2 @ fence @ rest) = Inr D)
    \<and> (D = JObject ms
         \<and> CHR ''{'' \<notin> set before \<and> CHR ''}'' \<notin> set suf
         \<and> JSON_parse (before @ serialize D @ suf) \<in> {None, Some D}
         \<and> (\<forall>g. markdownMatch (before @ serialize D @ suf) = Some g
                \<longrightarrow> JSON_parse g \<in> {None, Some D})
       \<longrightarrow> tryParseJSON (before @ serialize D @ suf) = Inr D)"
proof -
  have p: "JSON_parse (serialize D) = Some D"
    using assms by (rule JSON_parse_serialize)
  obtain c cs where st: "serialize D = c # cs" "value_start c"
    using serialize_start [OF assms] by blast
  have hd: "\<not> is_js_space (hd (serialize D))"
    using st value_start_facts by simp
  have last: "\<not> is_js_space (last (serialize D))"
    using assms by (rule serialize_last)
  have tick: "last (serialize D) \<noteq> CHR 0x60"
    using assms by (rule serialize_last_tick)
  note general = extractor_on_parsable [OF p]
  show ?thesis
  proof (intro conjI impI)
    show "tryParseJSON (serialize D) = Inr D"
      by (rule conjunct1 [OF general])
  next
    assume h: "\<not> includes_str pre fence \<and> (pre = [] \<or> last pre \<noteq> CHR 0x60)
         \<and> (tag = [] \<or> tag = ''json'')
         \<and> (\<forall>c\<in>set ws1. is_js_space c) \<and> (\<forall>c\<in>set ws2. is_js_space c)
         \<and> (pre = []
              \<or> JSON_parse (pre @ fence @ tag @ ws1 @ serialize D @ ws2 @ fence @ rest)
                  \<in> {None, Some D})
         \<and> (\<not> includes_str (serialize D) fence
              \<or> (\<exists>members. D = JObject members)
                 \<and> CHR ''{'' \<notin> set pre \<and> CHR ''}'' \<notin> set rest)"
    then consider (plain) "\<not> includes_str (serialize D) fence"
      | (object) members where "D = JObject members"
          "CHR ''{'' \<notin> set pre" "CHR ''}'' \<notin> set rest"
      by blast
    then show "tryParseJSON (pre @ fence @ tag @ ws1 @ serialize D @ ws2 @ fence @ rest) = Inr D"
    proof cases
      case plain
      with h hd last tick show ?thesis
        by (intro mp [OF conjunct1 [OF conjunct2 [OF general]]]) simp
    next
      case object
      with h assms show ?thesis
        by (intro fenced_object [of members pre tag ws1 ws2 rest, folded object(1)])
           (simp_all del: serialize.simps valid_json.simps)
    qed
  next
    assume h: "D = JObject ms
         \<and> CHR ''{'' \<notin> set before \<and> CHR ''}'' \<notin> set suf
         \<and> JSON_parse (before @ serialize D @ suf) \<in> {None, Some D}
         \<and> (\<forall>g. markdownMatch (before @ serialize D @ suf) = Some g
                \<longrightarrow> JSON_parse g \<in> {None, Some D})"
    then have "hd (serialize D) = CHR ''{''" "last (serialize D) = CHR ''}''"
      by simp_all
    with h show "tryParseJSON (before @ serialize D @ suf) = Inr D"
      by (intro mp [OF conjunct2 [OF conjunct2 [OF general]]]) (auto simp del: serialize.simps)
  qed
qed

lemma sample_document:
  \<open>valid_json (JObject [(''a'', JNumber ''1'')])\<close>
  \<open>serialize (JObject [(''a'', JNumber ''1'')]) = ''{"a":1}''\<close>
  by code_simp+

lemma sample_snippets:
  \<open>valid_json (JArray [JString (CHR 0x60 # ''x'' @ [CHR 0x60])])\<close>
  \<open>valid_json (JObject [(''code'', JString fence)])\<close>
  by code_simp+

theorem extractor_round_trip_witness:
  \<open>valid_json (JObject [(''a'', JNumber ''1'')])
   \<and> serialize (JObject [(''a'', JNumber ''1'')]) = ''{"a":1}''
   \<and> tryParseJSON ''{"a":1}'' = Inr (JObject [(''a'', JNumber ''1'')])
   \<and> tryParseJSON (''Analysis: '' @ fence @ ''json'' @ [CHR 0x0A] @ ''{"a":1}'' @ [CHR 0x0A]
                     @ fence @ '' Done.'')
     = Inr (JObject [(''a'', JNumber ''1'')])
   \<and> tryParseJSON (''Result: '' @ ''{"a":1}'' @ '' (end)'') = Inr (JObject [(''a'', JNumber ''1'')])
   \<and> valid_json (JArray [JString (CHR 0x60 # ''x'' @ [CHR 0x60])])
   \<and> tryParseJSON ((''See '' @ [CHR 0x60] @ ''x'' @ [CHR 0x60] @ '': '') @ fence @ [] @ [CHR 0x0A]
                     @ serialize (JArray [JString (CHR 0x60 # ''x'' @ [CHR 0x60])])
                     @ [CHR 0x0A] @ fence @ [])
     = Inr (JArray [JString (CHR 0x60 # ''x'' @ [CHR 0x60])])
   \<and> valid_json (JObject [(''code'', JString fence)])
   \<and> tryParseJSON ([] @ fence @ ''json'' @ [CHR 0x0A]
                     @ serialize (JObject [(''code'', JString fence)]) @ [CHR 0x0A] @ fence @ [])
     = Inr (JObject [(''code'', JString fence)])\<close>
proof -
  let ?D = "JObject [(''a'', JNumber ''1'')]"
  let ?A = "JArray [JString (CHR 0x60 # ''x'' @ [CHR 0x60])]"
  let ?O = "JObject [(''code'', JString fence)]"
  let ?pre = "''See '' @ [CHR 0x60] @ ''x'' @ [CHR 0x60] @ '': ''"
  note t = extractor_round_trip [OF sample_document(1)]
  have f1: "\<not> includes_str ''Analysis: '' fence" by code_simp
  have f2: "''Analysis: '' = [] \<or> last ''Analysis: '' \<noteq> CHR 0x60" by code_simp
  have f3: "''json'' = [] \<or> ''json'' = ''json''" by simp
  have f4: "\<forall>c\<in>set [CHR 0x0A]. is_js_space c" by code_simp
  have f5: "''Analysis: '' = []
            \<or> JSON_parse (''Analysis: '' @ fence @ ''json'' @ [CHR 0x0A] @ serialize ?D @ [CHR 0x0A]
                           @ fence @ '' Done.'')
              \<in> {None, Some ?D}"
    by code_simp
  have f6: "\<not> includes_str (serialize ?D) fence" by code_simp
  have fenced:
    "\<not> includes_str ''Analysis: '' fence \<and> (''Analysis: '' = [] \<or> last ''Analysis: '' \<noteq> CHR 0x60)
       \<and> (''json'' = [] \<or> ''json'' = ''json'')
       \<and> (\<forall>c\<in>set [CHR 0x0A]. is_js_space c) \<and> (\<forall>c\<in>set [CHR 0x0A]. is_js_space c)
       \<and> (''Analysis: '' = []
           \<or> JSON_parse (''Analysis: '' @ fence @ ''json'' @ [CHR 0x0A] @ serialize ?D @ [CHR 0x0A]
                           @ fence @ '' Done.'')
             \<in> {None, Some ?D})
       \<and> (\<not> includes_str (serialize ?D) fence
            \<or> (\<exists>members. ?D = JObject members)
               \<and> CHR ''{'' \<notin> set ''Analysis: '' \<and> CHR ''}'' \<notin> set '' Done.'')"
    by (intro conjI f1 f2 f3 f4 f5 disjI1 [OF f6])
  have no_fence: "markdownMatch (''Result: '' @ serialize ?D @ '' (end)'') = None"
    by code_simp
  have braces:
    "?D = JObject [(''a'', JNumber ''1'')]
       \<and> CHR ''{'' \<notin> set ''Result: '' \<and> CHR ''}'' \<notin> set '' (end)''
       \<and> JSON_parse (''Result: '' @ serialize ?D @ '' (end)'') \<in> {None, Some ?D}"
    by code_simp
  have prose:
    "?D = JObject [(''a'', JNumber ''1'')]
       \<and> CHR ''{'' \<notin> set ''Result: '' \<and> CHR ''}'' \<notin> set '' (end)''
       \<and> JSON_parse (''Result: '' @ serialize ?D @ '' (end)'') \<in> {None, Some ?D}
       \<and> (\<forall>g. markdownMatch (''Result: '' @ serialize ?D @ '' (end)'') = Some g
              \<longrightarrow> JSON_parse g \<in> {None, Some ?D})"
    using braces no_fence by (simp del: append.simps serialize.simps)
  have a: "tryParseJSON (serialize ?D) = Inr ?D"
    by (rule conjunct1 [OF t])
  have b: "tryParseJSON (''Analysis: '' @ fence @ ''json'' @ [CHR 0x0A] @ serialize ?D @ [CHR 0x0A]
                     @ fence @ '' Done.'') = Inr ?D"
    by (rule mp [OF conjunct1 [OF conjunct2 [OF t]] fenced])
  have c: "tryParseJSON (''Result: '' @ serialize ?D @ '' (end)'') = Inr ?D"
    by (rule mp [OF conjunct2 [OF conjunct2 [OF t]] prose])
  have g1: "\<not> includes_str ?pre fence" by code_simp
  have g2: "?pre = [] \<or> last ?pre \<noteq> CHR 0x60" by code_simp
  have g3: "([]::string) = [] \<or> [] = ''json''" by simp
  have g5: "?pre = []
            \<or> JSON_parse (?pre @ fence @ [] @ [CHR 0x0A] @ serialize ?A @ [CHR 0x0A] @ fence @ [])
              \<in> {None, Some ?A}"
    by code_simp
  have g6: "\<not> includes_str (serialize ?A) fence" by code_simp
  have ticks:
    "\<not> includes_str ?pre fence \<and> (?pre = [] \<or> last ?pre \<noteq> CHR 0x60)
       \<and> (([]::string) = [] \<or> [] = ''json'')
       \<and> (\<forall>c\<in>set [CHR 0x0A]. is_js_space c) \<and> (\<forall>c\<in>set [CHR 0x0A]. is_js_space c)
       \<and> (?pre = []
           \<or> JSON_parse (?pre @ fence @ [] @ [CHR 0x0A] @ serialize ?A @ [CHR 0x0A] @ fence @ [])
             \<in> {None, Some ?A})
       \<and> (\<not> includes_str (serialize ?A) fence
            \<or> (\<exists>members. ?A = JObject members)
               \<and> CHR ''{'' \<notin> set ?pre \<and> CHR ''}'' \<notin> set [])"
    by (intro conjI g1 g2 g3 f4 g5 disjI1 [OF g6])
  have d: "tryParseJSON (?pre @ fence @ [] @ [CHR 0x0A] @ serialize ?A @ [CHR 0x0A] @ fence @ [])
           = Inr ?A"
    by (rule mp [OF conjunct1 [OF conjunct2 [OF extractor_round_trip [OF sample_snippets(1)]]]
                   ticks])
  have h1: "\<not> includes_str [] fence" by code_simp
  have h2: "([]::string) = [] \<or> last [] \<noteq> CHR 0x60" by simp
  have h5: "([]::string) = []
            \<or> JSON_parse ([] @ fence @ ''json'' @ [CHR 0x0A] @ serialize ?O @ [CHR 0x0A] @ fence @ [])
              \<in> {None, Some ?O}"
    by simp
  have h6: "(\<exists>members. ?O = JObject members) \<and> CHR ''{'' \<notin> set [] \<and> CHR ''}'' \<notin> set []"
    by simp
  have object:
    "\<not> includes_str [] fence \<and> (([]::string) = [] \<or> last [] \<noteq> CHR 0x60)
       \<and> (''json'' = [] \<or> ''json'' = ''json'')
       \<and> (\<forall>c\<in>set [CHR 0x0A]. is_js_space c) \<and> (\<forall>c\<in>set [CHR 0x0A]. is_js_space c)
       \<and> (([]::string) = []
           \<or> JSON_parse ([] @ fence @ ''json'' @ [CHR 0x0A] @ serialize ?O @ [CHR 0x0A] @ fence @ [])
             \<in> {None, Some ?O})
       \<and> (\<not> includes_str (serialize ?O) fence
            \<or> (\<exists>members. ?O = JObject members)
               \<and> CHR ''{'' \<notin> set [] \<and> CHR ''}'' \<notin> set [])"
    by (intro conjI h1 h2 f3 f4 h5 disjI2 [OF h6])
  have e: "tryParseJSON ([] @ fence @ ''json'' @ [CHR 0x0A] @ serialize ?O @ [CHR 0x0A] @ fence @ [])
           = Inr ?O"
    by (rule mp [OF conjunct1 [OF conjunct2 [OF extractor_round_trip [OF sample_snippets(2)]]]
                   object])
  show ?thesis
    using a b c d e sample_document sample_snippets unfolding sample_document(2) by (intro conjI)
qed

text \<open>
  C8, as stated, fails. In prose: with a brace in the prefix or in the suffix the
  extractor throws on a valid document; between brackets, or after a fenced block that
  holds another document, it returns that other document. In a fenced block: an array
  with three backticks in a string is cut there by the lazy group and the extractor
  throws, as it does when a backtick stands just before the block; and a fenced number
  between double quotes is read as a string.
\<close>

theorem wrapping_breaks_round_trip:
  \<open>valid_json (JObject [(''a'', JNumber ''1'')])
   \<and> tryParseJSON (''Result {draft}: '' @ serialize (JObject [(''a'', JNumber ''1'')]))
     = Inl (new_Error ''Could not parse JSON from response.'')
   \<and> tryParseJSON (serialize (JObject [(''a'', JNumber ''1'')]) @ '' (see })'')
     = Inl (new_Error ''Could not parse JSON from response.'')
   \<and> tryParseJSON (''['' @ serialize (JObject [(''a'', JNumber ''1'')]) @ '']'')
     = Inr (JArray [JObject [(''a'', JNumber ''1'')]])
   \<and> tryParseJSON (fence @ ''[2]'' @ fence @ '' '' @ serialize (JObject [(''a'', JNumber ''1'')]))
     = Inr (JArray [JNumber ''2''])
   \<and> valid_json (JArray [JString fence])
   \<and> tryParseJSON (fence @ ''json'' @ [CHR 0x0A] @ serialize (JArray [JString fence])
                     @ [CHR 0x0A] @ fence)
     = Inl (new_Error ''Could not parse JSON from response.'')
   \<and> valid_json (JArray [JNumber ''1''])
   \<and> tryParseJSON ([CHR 0x60] @ fence @ serialize (JArray [JNumber ''1'']) @ fence)
     = Inl (new_Error ''Could not parse JSON from response.'')
   \<and> valid_json (JNumber ''1'')
   \<and> tryParseJSON ([CHR 0x22] @ fence @ serialize (JNumber ''1'') @ fence @ [CHR 0x22])
     = Inr (JString (fence @ ''1'' @ fence))\<close>
  by code_simp

end
